theory Spec2Isabelle
  imports Complex_Main "HOL-Library.AList"
begin

section \<open>Numbers and points\<close>

text \<open>
  The program computes with JavaScript numbers. They are modelled as real numbers:
  the rounding of double arithmetic, overflow to infinity and the exponent notation that
  \<^verbatim>\<open>toFixed\<close> switches to for magnitudes of at least \<open>10^21\<close> are not part of the model. Two
  features of doubles that decide a branch of the code are kept: the sign of a zero that
  reaches \<^verbatim>\<open>Math.atan2\<close>, and the value \<^verbatim>\<open>NaN\<close> that \<^verbatim>\<open>parseFloat\<close> returns on a
  string that does not start with a number.

  \<^verbatim>\<open>interface Point { x: number; y: number }\<close> (drawing.ts). The fields are named \<open>px\<close>
  and \<open>py\<close>, so that \<open>x\<close> and \<open>y\<close> stay free for variables.
\<close>

record point =
  px :: real
  py :: real

section \<open>Geometry kernel (drawing.ts)\<close>

subsection \<open>Wedge containment\<close>

text \<open>
  \<^verbatim>\<open>Math.atan2(y, x)\<close> on real arguments. The flag says that a zero \<open>x\<close> is the negative
  zero: \<^verbatim>\<open>Math.atan2(+0, -0)\<close> is \<open>\<pi>\<close>, while \<^verbatim>\<open>Math.atan2(+0, +0)\<close> is \<open>0\<close>. The first
  argument is never the negative zero in this program: it is a difference of two
  coordinates, and \<^verbatim>\<open>a - a\<close> is \<open>+0\<close>.
\<close>

definition atan2 :: "real \<Rightarrow> real \<Rightarrow> bool \<Rightarrow> real" where
  "atan2 y x x_negzero =
     (if 0 < x then arctan (y / x)
      else if x < 0 then (if 0 \<le> y then arctan (y / x) + pi else arctan (y / x) - pi)
      else if 0 < y then pi / 2
      else if y < 0 then - (pi / 2)
      else if x_negzero then pi else 0)"

text \<open>
  \<^verbatim>\<open>isPointInWedge(point, center = { x: 500, y: 500 })\<close>, the revision with the radius
  limit. The second argument of \<^verbatim>\<open>Math.atan2(dx, -dy)\<close> is a negation, so it is the negative
  zero when \<open>dy\<close> is zero: the flag is \<open>True\<close>.
\<close>

definition isPointInWedge :: "point \<Rightarrow> point \<Rightarrow> bool" where
  "isPointInWedge p center =
     (let dx = px p - px center;
          dy = py p - py center;
          distance = sqrt (dx * dx + dy * dy)
      in if distance > 400 then False
         else (let angle = atan2 dx (- dy) True * (180 / pi);
                   angle = (if angle < 0 then angle + 360 else angle)
               in angle \<ge> 0 \<and> angle \<le> 30))"

text \<open>
  The earlier revision of the same function, which tests the angle only.
\<close>

definition isPointInWedge_noRadius :: "point \<Rightarrow> point \<Rightarrow> bool" where
  "isPointInWedge_noRadius p center =
     (let dx = px p - px center;
          dy = py p - py center;
          angle = atan2 dx (- dy) True * (180 / pi);
          angle = (if angle < 0 then angle + 360 else angle)
      in angle \<ge> 0 \<and> angle \<le> 30)"

subsection \<open>Wedge clipping\<close>

text \<open>
  \<^verbatim>\<open>clipLineToWedge(start, end, center = { x: 500, y: 500 })\<close>. The variable \<^verbatim>\<open>minT\<close>
  starts at \<^verbatim>\<open>Infinity\<close>: it is an optional real, \<open>None\<close> for infinity, and \<open>below t minT\<close>
  is the test \<^verbatim>\<open>t < minT\<close>. When \<open>start = end\<close> the source divides zero by zero and the
  \<^verbatim>\<open>NaN\<close> fails the test \<^verbatim>\<open>t > 0\<close>; here the quotient is \<open>0\<close>, which fails it too.
\<close>

definition below :: "real \<Rightarrow> real option \<Rightarrow> bool" where
  "below t minT = (case minT of None \<Rightarrow> True | Some m \<Rightarrow> t < m)"

definition clipLineToWedge :: "point \<Rightarrow> point \<Rightarrow> point \<Rightarrow> point" where
  "clipLineToWedge start end center =
     (if isPointInWedge end center then end
      else
        (let dx = px end - px start;
             dy = py end - py start;
             closestIntersection = end;
             minT = None;
             a = dx * dx + dy * dy;
             b = 2 * ((px start - px center) * dx + (py start - py center) * dy);
             c = (px start - px center)\<^sup>2 + (py start - py center)\<^sup>2 - 400 * 400;
             discriminant = b * b - 4 * a * c;
             (closestIntersection, minT) =
               (if discriminant \<ge> 0
                then (let t = (- b + sqrt discriminant) / (2 * a)
                      in if t > 0 \<and> t < 1 \<and> below t minT
                         then (\<lparr>px = px start + t * dx, py = py start + t * dy\<rparr>, Some t)
                         else (closestIntersection, minT))
                else (closestIntersection, minT));
             (closestIntersection, minT) =
               (if dx \<noteq> 0
                then (let t = (px center - px start) / dx
                      in if t > 0 \<and> t < 1 \<and> below t minT
                         then (let intersectY = py start + t * dy
                               in if intersectY \<le> py center
                                  then (\<lparr>px = px center, py = intersectY\<rparr>, Some t)
                                  else (closestIntersection, minT))
                         else (closestIntersection, minT))
                else (closestIntersection, minT));
             angle30 = 30 * pi / 180;
             lineDir = \<lparr>px = sin angle30, py = - cos angle30\<rparr>;
             det = dx * py lineDir - dy * px lineDir;
             (closestIntersection, minT) =
               (if \<bar>det\<bar> > 0.0001
                then (let t = ((px center - px start) * py lineDir
                                - (py center - py start) * px lineDir) / det;
                          s = ((px center - px start) * dy - (py center - py start) * dx) / det
                      in if t > 0 \<and> t < 1 \<and> s > 0 \<and> below t minT
                         then (\<lparr>px = px start + t * dx, py = py start + t * dy\<rparr>, Some t)
                         else (closestIntersection, minT))
                else (closestIntersection, minT))
         in closestIntersection))"

text \<open>
  The crossings of the specification: the point of the segment at parameter \<open>t\<close>, the
  circle of radius \<open>400\<close>, the ray at \<open>0\<close> degrees (straight up from the centre) and the
  ray at \<open>30\<close> degrees. A crossing is valid when \<open>0 < t < 1\<close> and the point lies on
  the circle, or on the \<open>0\<close> degree ray and the segment is not vertical, or on the \<open>30\<close>
  degree ray and the segment is not nearly parallel to it (the determinant test of the
  code).
\<close>

definition pointAt :: "point \<Rightarrow> point \<Rightarrow> real \<Rightarrow> point" where
  "pointAt start end t = \<lparr>px = px start + t * (px end - px start), py = py start + t * (py end - py start)\<rparr>"

definition onCircle :: "point \<Rightarrow> point \<Rightarrow> bool" where
  "onCircle center p = ((px p - px center)\<^sup>2 + (py p - py center)\<^sup>2 = 400\<^sup>2)"

definition onRay0 :: "point \<Rightarrow> point \<Rightarrow> bool" where
  "onRay0 center p = (px p = px center \<and> py p \<le> py center)"

definition onRay30 :: "point \<Rightarrow> point \<Rightarrow> bool" where
  "onRay30 center p = (\<exists>s > 0. px p = px center + s * sin (pi / 6) \<and> py p = py center - s * cos (pi / 6))"

definition validCrossing :: "point \<Rightarrow> point \<Rightarrow> point \<Rightarrow> real \<Rightarrow> bool" where
  "validCrossing start end center t =
     (0 < t \<and> t < 1 \<and>
      (onCircle center (pointAt start end t) \<or>
       (px end \<noteq> px start \<and> onRay0 center (pointAt start end t)) \<or>
       (\<bar>(px end - px start) * (- cos (pi / 6)) - (py end - py start) * sin (pi / 6)\<bar> > 0.0001 \<and>
        onRay30 center (pointAt start end t))))"

text \<open>
  The three tests of the code as one step on the state \<open>(closestIntersection, minT)\<close>, and the
  invariant of running them in sequence.
\<close>

definition candidateStep :: "bool \<times> real \<times> point \<Rightarrow> point \<times> real option \<Rightarrow> point \<times> real option" where
  "candidateStep cand st = (case cand of (v, t, p) \<Rightarrow> if v \<and> below t (snd st) then (p, Some t) else st)"

definition selInv :: "point \<Rightarrow> (bool \<times> real \<times> point) list \<Rightarrow> point \<times> real option \<Rightarrow> bool" where
  "selInv e seen st =
     ((snd st = None \<longrightarrow> fst st = e \<and> (\<forall>c \<in> set seen. \<not> fst c)) \<and>
      (\<forall>tm. snd st = Some tm \<longrightarrow>
         (True, tm, fst st) \<in> set seen \<and> (\<forall>c \<in> set seen. fst c \<longrightarrow> tm \<le> fst (snd c))))"

definition circleT :: "point \<Rightarrow> point \<Rightarrow> point \<Rightarrow> real" where
  "circleT start end center =
     (let dx = px end - px start;
          dy = py end - py start;
          a = dx * dx + dy * dy;
          b = 2 * ((px start - px center) * dx + (py start - py center) * dy);
          c = (px start - px center)\<^sup>2 + (py start - py center)\<^sup>2 - 400 * 400
      in (- b + sqrt (b * b - 4 * a * c)) / (2 * a))"

definition ray0T :: "point \<Rightarrow> point \<Rightarrow> point \<Rightarrow> real" where
  "ray0T start end center = (px center - px start) / (px end - px start)"

definition det30 :: "point \<Rightarrow> point \<Rightarrow> real" where
  "det30 start end = (px end - px start) * (- cos (pi / 6)) - (py end - py start) * sin (pi / 6)"

definition ray30T :: "point \<Rightarrow> point \<Rightarrow> point \<Rightarrow> real" where
  "ray30T start end center =
     ((px center - px start) * (- cos (pi / 6)) - (py center - py start) * sin (pi / 6)) / det30 start end"

definition ray30S :: "point \<Rightarrow> point \<Rightarrow> point \<Rightarrow> real" where
  "ray30S start end center =
     ((px center - px start) * (py end - py start) - (py center - py start) * (px end - px start))
       / det30 start end"

definition candidates :: "point \<Rightarrow> point \<Rightarrow> point \<Rightarrow> (bool \<times> real \<times> point) list" where
  "candidates start end center =
     (let dx = px end - px start;
          dy = py end - py start;
          a = dx * dx + dy * dy;
          b = 2 * ((px start - px center) * dx + (py start - py center) * dy);
          c = (px start - px center)\<^sup>2 + (py start - py center)\<^sup>2 - 400 * 400;
          t1 = circleT start end center;
          t2 = ray0T start end center;
          t3 = ray30T start end center
      in [(b * b - 4 * a * c \<ge> 0 \<and> 0 < t1 \<and> t1 < 1, t1, pointAt start end t1),
          (dx \<noteq> 0 \<and> 0 < t2 \<and> t2 < 1 \<and> py start + t2 * dy \<le> py center, t2,
             \<lparr>px = px center, py = py start + t2 * dy\<rparr>),
          (\<bar>det30 start end\<bar> > 0.0001 \<and> 0 < t3 \<and> t3 < 1 \<and> 0 < ray30S start end center, t3,
             pointAt start end t3)])"

section \<open>Endpoint snapper (snapping.ts)\<close>

text \<open>
  \<^verbatim>\<open>snapToNearestSnowflakeEndpoint(point, symmetryManager)\<close> reads the endpoints with
  \<^verbatim>\<open>symmetryManager.getAllBakedEndpoints()\<close>; the list it returns is the parameter
  \<open>allEndpoints\<close> here. The variable \<^verbatim>\<open>nearest: { point, distance } | null\<close> is an optional
  pair, and the \<^verbatim>\<open>for\<close> loop over the endpoints is \<open>snapLoop\<close>.
\<close>

definition SNAP_THRESHOLD :: real where
  "SNAP_THRESHOLD = 20"

definition distance :: "point \<Rightarrow> point \<Rightarrow> real" where
  "distance p1 p2 =
     (let dx = px p2 - px p1;
          dy = py p2 - py p1
      in sqrt (dx * dx + dy * dy))"

fun snapLoop :: "point \<Rightarrow> point list \<Rightarrow> (point \<times> real) option \<Rightarrow> (point \<times> real) option" where
  "snapLoop point [] nearest = nearest"
| "snapLoop point (endpoint # rest) nearest =
     (let dist = distance point endpoint
      in snapLoop point rest
           (if dist < SNAP_THRESHOLD
            then (if nearest = None \<or> dist < snd (the nearest) then Some (endpoint, dist) else nearest)
            else nearest))"

definition snapToNearestSnowflakeEndpoint :: "point \<Rightarrow> point list \<Rightarrow> point" where
  "snapToNearestSnowflakeEndpoint point allEndpoints =
     (case snapLoop point allEndpoints None of
        Some nearest \<Rightarrow> fst nearest
      | None \<Rightarrow> point)"

text \<open>
  The loop invariant: after the endpoints \<open>seen\<close>, \<open>nearest\<close> is empty when none of them
  is closer than the threshold, and otherwise holds one of them that is, with its distance,
  and no endpoint seen is closer.
\<close>

definition nearestOf :: "point \<Rightarrow> point list \<Rightarrow> (point \<times> real) option \<Rightarrow> bool" where
  "nearestOf p seen nearest =
     (case nearest of
        None \<Rightarrow> list_all (\<lambda>e. \<not> distance p e < SNAP_THRESHOLD) seen
      | Some (a, d) \<Rightarrow> d = distance p a \<and> d < SNAP_THRESHOLD \<and> a \<in> set seen \<and>
                      list_all (\<lambda>e. d \<le> distance p e) seen)"

section \<open>Stroke simplification (drawing.ts)\<close>

definition perpendicularDistance :: "point \<Rightarrow> point \<Rightarrow> point \<Rightarrow> real" where
  "perpendicularDistance point lineStart lineEnd =
     (let dx = px lineEnd - px lineStart;
          dy = py lineEnd - py lineStart
      in if dx = 0 \<and> dy = 0
         then (let distX = px point - px lineStart;
                   distY = py point - py lineStart
               in sqrt (distX * distX + distY * distY))
         else (let numerator = \<bar>dy * px point - dx * py point + px lineEnd * py lineStart
                                  - py lineEnd * px lineStart\<bar>;
                   denominator = sqrt (dx * dx + dy * dy)
               in numerator / denominator))"

text \<open>
  The search loop of \<^verbatim>\<open>simplifyPath\<close>:
  \<^verbatim>\<open>for (let i = 1; i < end; i++) { ... if (distance > maxDistance) { maxDistance = distance; maxIndex = i; } }\<close>
  with the pair \<open>(maxDistance, maxIndex)\<close> as its state, started at \<open>(0, 0)\<close>.
\<close>

definition maxStep :: "point list \<Rightarrow> nat \<Rightarrow> nat \<Rightarrow> real \<times> nat \<Rightarrow> real \<times> nat" where
  "maxStep points end i acc =
     (let distance = perpendicularDistance (points ! i) (points ! 0) (points ! end)
      in if distance > fst acc then (distance, i) else acc)"

definition findMax :: "point list \<Rightarrow> real \<times> nat" where
  "findMax points = (let end = length points - 1 in fold (maxStep points end) [1..<end] (0, 0))"

text \<open>
  \<^verbatim>\<open>simplifyPath(points, epsilon = 2.0)\<close> calls itself on two slices of its input. The first
  argument here bounds the depth of the calls: \<open>None\<close> is a call that did not return
  within that depth. \<^verbatim>\<open>points.slice(0, maxIndex + 1)\<close> is \<open>take\<close>, \<^verbatim>\<open>points.slice(maxIndex)\<close>
  is \<open>drop\<close>, and \<^verbatim>\<open>leftSegment.slice(0, -1)\<close> is \<open>butlast\<close>.
\<close>

fun simplifyPath :: "nat \<Rightarrow> point list \<Rightarrow> real \<Rightarrow> point list option" where
  "simplifyPath 0 points epsilon = None"
| "simplifyPath (Suc fuel) points epsilon =
     (if length points \<le> 2 then Some points
      else (let (maxDistance, maxIndex) = findMax points;
                end = length points - 1
            in if maxDistance > epsilon
               then (case simplifyPath fuel (take (maxIndex + 1) points) epsilon of
                       None \<Rightarrow> None
                     | Some leftSegment \<Rightarrow>
                         (case simplifyPath fuel (drop maxIndex points) epsilon of
                            None \<Rightarrow> None
                          | Some rightSegment \<Rightarrow> Some (butlast leftSegment @ rightSegment)))
               else Some [points ! 0, points ! end]))"

text \<open>
  Every point of \<open>original\<close> is within \<open>epsilon\<close>, in perpendicular distance, of a
  segment of the polyline \<open>simplified\<close>.
\<close>

definition withinEpsilon :: "real \<Rightarrow> point list \<Rightarrow> point list \<Rightarrow> bool" where
  "withinEpsilon epsilon original simplified =
     list_all (\<lambda>p. \<exists>j. Suc j < length simplified \<and>
                  perpendicularDistance p (simplified ! j) (simplified ! Suc j) \<le> epsilon) original"


definition collinear3 :: "point list" where
  "collinear3 = [\<lparr>px = 0, py = 0\<rparr>, \<lparr>px = 1, py = 0\<rparr>, \<lparr>px = 2, py = 0\<rparr>]"

section \<open>DOM elements\<close>

text \<open>
  An element of the document: its identity (DOM nodes are compared by reference), its tag
  and its attributes in order. \<^verbatim>\<open>cloneNode(true)\<close> copies the tag and the attributes into a
  node with a new identity, which the caller supplies. The children of a group element
  are a list of elements; \<^verbatim>\<open>removeChild\<close> removes the child with the given identity.
  Strings are lists of 8-bit characters.
\<close>

record element =
  node_id :: nat
  tagName :: string
  attributes :: "(string \<times> string) list"

definition getAttribute :: "element \<Rightarrow> string \<Rightarrow> string option" where
  "getAttribute e name = map_of (attributes e) name"

definition setAttribute :: "element \<Rightarrow> string \<Rightarrow> string \<Rightarrow> element" where
  "setAttribute e name v = e\<lparr>attributes := AList.update name v (attributes e)\<rparr>"

definition removeAttribute :: "element \<Rightarrow> string \<Rightarrow> element" where
  "removeAttribute e name = e\<lparr>attributes := AList.delete name (attributes e)\<rparr>"

definition cloneNode :: "nat \<Rightarrow> element \<Rightarrow> element" where
  "cloneNode fresh e = e\<lparr>node_id := fresh\<rparr>"

definition removeChild :: "element list \<Rightarrow> element \<Rightarrow> element list" where
  "removeChild children child = filter (\<lambda>c. node_id c \<noteq> node_id child) children"

text \<open>
  A number inside a template literal, \<^verbatim>\<open>`${n}`\<close>, for an integer \<open>n\<close>: its decimal digits,
  with a minus sign when negative. The numbers that symmetry.ts prints this way are all
  integers.
\<close>

definition digitChar :: "nat \<Rightarrow> char" where
  "digitChar d = ''0123456789'' ! d"

fun digits :: "nat \<Rightarrow> string" where
  "digits n = (if n < 10 then [digitChar n] else digits (n div 10) @ [digitChar (n mod 10)])"

declare digits.simps [simp del]

definition numberToString :: "int \<Rightarrow> string" where
  "numberToString n = (if n < 0 then CHR ''-'' # digits (nat (- n)) else digits (nat n))"

section \<open>Symmetry replicator (symmetry.ts)\<close>

text \<open>
  \<^verbatim>\<open>const CENTER = { x: 500, y: 500 }\<close> and
  \<^verbatim>\<open>const ROTATION_ANGLES = [0, 60, 120, 180, 240, 300]\<close>.
\<close>

definition CENTER :: "int \<times> int" where
  "CENTER = (500, 500)"

definition ROTATION_ANGLES :: "int list" where
  "ROTATION_ANGLES = [0, 60, 120, 180, 240, 300]"

text \<open>
  \<^verbatim>\<open>interface Stroke { points: Point[]; pathElement: SVGPathElement }\<close> (drawing.ts), and the
  fields of \<^verbatim>\<open>class SymmetryManager\<close>: the children of \<^verbatim>\<open>snowflakeLayer\<close>, and
  \<^verbatim>\<open>strokePaths: Map<SVGPathElement, SVGPathElement[]>\<close>, keyed by the identity of the
  stroke's path element, in insertion order (\<open>AList.update\<close> is \<^verbatim>\<open>Map.set\<close>). \<open>nextId\<close> is the
  next unused node identity.
\<close>

record stroke =
  points :: "point list"
  pathElement :: element

record symmetryManager =
  snowflakeLayer :: "element list"
  strokePaths :: "(nat \<times> element list) list"
  nextId :: nat

definition newSymmetryManager :: "element list \<Rightarrow> nat \<Rightarrow> symmetryManager" where
  "newSymmetryManager layerChildren fresh =
     \<lparr>snowflakeLayer = layerChildren, strokePaths = [], nextId = fresh\<rparr>"

definition mirrorPath :: "nat \<Rightarrow> element \<Rightarrow> element" where
  "mirrorPath fresh original =
     (let mirror = cloneNode fresh original;
          transform = ''scale(-1, 1) translate('' @ numberToString (- 2 * fst CENTER) @ '', 0)''
      in setAttribute mirror ''transform'' transform)"

definition cloneAndRotate :: "nat \<Rightarrow> element \<Rightarrow> int \<Rightarrow> element" where
  "cloneAndRotate fresh original angle =
     (let clone = cloneNode fresh original;
          existingTransform = (case getAttribute original ''transform'' of None \<Rightarrow> '''' | Some t \<Rightarrow> t);
          rotateTransform = ''rotate('' @ numberToString angle @ '' '' @ numberToString (fst CENTER)
                              @ '' '' @ numberToString (snd CENTER) @ '')'';
          finalTransform = (if existingTransform \<noteq> '''' then rotateTransform @ '' '' @ existingTransform
                            else rotateTransform)
      in setAttribute clone ''transform'' finalTransform)"

text \<open>
  One pass of the loop of \<^verbatim>\<open>addStroke\<close> over the rotation angles; the state is the list
  of children of the layer, \<^verbatim>\<open>allPaths\<close> and the next unused identity.
\<close>

definition addStrokeStep ::
  "stroke \<Rightarrow> int \<Rightarrow> element list \<times> element list \<times> nat \<Rightarrow> element list \<times> element list \<times> nat" where
  "addStrokeStep s angle st =
     (case st of (layer, allPaths, fresh) \<Rightarrow>
        (let rotatedOriginal = cloneAndRotate fresh (pathElement s) angle;
             layer = layer @ [rotatedOriginal];
             allPaths = allPaths @ [rotatedOriginal];
             mirrored = mirrorPath (fresh + 1) (pathElement s);
             rotatedMirror = cloneAndRotate (fresh + 2) mirrored angle;
             layer = layer @ [rotatedMirror];
             allPaths = allPaths @ [rotatedMirror]
         in (layer, allPaths, fresh + 3)))"

definition addStroke :: "symmetryManager \<Rightarrow> stroke \<Rightarrow> symmetryManager" where
  "addStroke m s =
     (case fold (addStrokeStep s) ROTATION_ANGLES (snowflakeLayer m, [], nextId m) of
        (layer, allPaths, fresh) \<Rightarrow>
          \<lparr>snowflakeLayer = layer,
           strokePaths = AList.update (node_id (pathElement s)) allPaths (strokePaths m),
           nextId = fresh\<rparr>)"

definition updateStroke :: "symmetryManager \<Rightarrow> stroke \<Rightarrow> symmetryManager" where
  "updateStroke m s =
     (let existingPaths = map_of (strokePaths m) (node_id (pathElement s));
          m = (case existingPaths of
                 Some paths \<Rightarrow> m\<lparr>snowflakeLayer := fold (\<lambda>path layer. removeChild layer path) paths (snowflakeLayer m)\<rparr>
               | None \<Rightarrow> m)
      in addStroke m s)"

definition removeStroke :: "symmetryManager \<Rightarrow> stroke \<Rightarrow> symmetryManager" where
  "removeStroke m s =
     (case map_of (strokePaths m) (node_id (pathElement s)) of
        None \<Rightarrow> m
      | Some paths \<Rightarrow>
          m\<lparr>snowflakeLayer := fold (\<lambda>path layer. removeChild layer path) paths (snowflakeLayer m),
            strokePaths := AList.delete (node_id (pathElement s)) (strokePaths m)\<rparr>)"

definition clearAll :: "symmetryManager \<Rightarrow> symmetryManager" where
  "clearAll m = m\<lparr>snowflakeLayer := [], strokePaths := []\<rparr>"

definition getAllPaths :: "symmetryManager \<Rightarrow> element list" where
  "getAllPaths m = filter (\<lambda>child. tagName child = ''path'') (snowflakeLayer m)"

text \<open>
  The states of a replicator: a new one, and every state that \<^verbatim>\<open>addStroke\<close>,
  \<^verbatim>\<open>updateStroke\<close>, \<^verbatim>\<open>removeStroke\<close> or \<^verbatim>\<open>clearAll\<close> makes of a reachable state. The
  registered strokes are the keys of \<^verbatim>\<open>strokePaths\<close>, the registered replicas are the
  elements of its values.
\<close>

definition replicaCount :: "symmetryManager \<Rightarrow> nat" where
  "replicaCount m = length (concat (map snd (strokePaths m)))"

definition strokeCount :: "symmetryManager \<Rightarrow> nat" where
  "strokeCount m = length (strokePaths m)"

inductive reachable :: "symmetryManager \<Rightarrow> bool" where
  new: "reachable (newSymmetryManager layerChildren fresh)"
| add: "reachable m \<Longrightarrow> reachable (addStroke m s)"
| update: "reachable m \<Longrightarrow> reachable (updateStroke m s)"
| remove: "reachable m \<Longrightarrow> reachable (removeStroke m s)"
| clear: "reachable m \<Longrightarrow> reachable (clearAll m)"

text \<open>
  The twelve transforms of the specification: for each of the six angles, the rotation,
  and the rotation applied after the mirror.
\<close>

definition rotateString :: "int \<Rightarrow> string" where
  "rotateString angle = ''rotate('' @ numberToString angle @ '' 500 500)''"

definition mirrorString :: string where
  "mirrorString = ''scale(-1, 1) translate(-1000, 0)''"

definition replicaTransforms :: "string list" where
  "replicaTransforms =
     concat (map (\<lambda>angle. [rotateString angle, rotateString angle @ '' '' @ mirrorString])
               [0, 60, 120, 180, 240, 300])"

text \<open>
  The replicas that \<^verbatim>\<open>addStroke\<close> creates, as a list.
\<close>

fun replicas :: "stroke \<Rightarrow> nat \<Rightarrow> int list \<Rightarrow> element list" where
  "replicas s fresh [] = []"
| "replicas s fresh (angle # angles) =
     [cloneAndRotate fresh (pathElement s) angle,
      cloneAndRotate (fresh + 2) (mirrorPath (fresh + 1) (pathElement s)) angle]
     @ replicas s (fresh + 3) angles"

definition twelveEach :: "(nat \<times> element list) list \<Rightarrow> bool" where
  "twelveEach al = list_all (\<lambda>entry. length (snd entry) = 12) al"

text \<open>
  A stroke as line mode finishes it: a path element with a stroke width and the path data
  of a straight segment.
\<close>

definition stroke0 :: stroke where
  "stroke0 = \<lparr>points = [], pathElement = \<lparr>node_id = 0, tagName = ''path'',
        attributes = [(''stroke-width'', ''2''), (''d'', ''M 550 450 L 600 480'')]\<rparr>\<rparr>"

section \<open>Transform baker (symmetry.ts)\<close>

subsection \<open>Characters and numbers\<close>

text \<open>
  The character classes of the regular expressions of \<^verbatim>\<open>transformPathData\<close>: \<^verbatim>\<open>\d\<close>,
  \<^verbatim>\<open>\s\<close> (on 8-bit characters: space, tab, line feed, vertical tab, form feed, carriage
  return and the no-break space), \<^verbatim>\<open>[-\d.]\<close>, \<^verbatim>\<open>[-\d.,\s]\<close>, the separators \<^verbatim>\<open>[\s,]\<close> of
  \<^verbatim>\<open>split\<close>, and \<^verbatim>\<open>[MLQC]\<close> under the flag \<^verbatim>\<open>i\<close>. \<^verbatim>\<open>toUpperCase\<close> is applied to a command
  letter only.
\<close>

definition isDigit :: "char \<Rightarrow> bool" where
  "isDigit c = (c \<in> set ''0123456789'')"

definition isSpace :: "char \<Rightarrow> bool" where
  "isSpace c = (c \<in> set [CHR '' '', CHR 0x09, CHR 0x0A, CHR 0x0B, CHR 0x0C, CHR 0x0D, CHR 0xA0])"

definition isNumChar :: "char \<Rightarrow> bool" where
  "isNumChar c = (c = CHR ''-'' \<or> isDigit c \<or> c = CHR ''.'')"

definition isCoordChar :: "char \<Rightarrow> bool" where
  "isCoordChar c = (c = CHR ''-'' \<or> isDigit c \<or> c = CHR ''.'' \<or> c = CHR '','' \<or> isSpace c)"

definition isSeparator :: "char \<Rightarrow> bool" where
  "isSeparator c = (isSpace c \<or> c = CHR '','')"

definition isCommandLetter :: "char \<Rightarrow> bool" where
  "isCommandLetter c = (c \<in> set ''MLQCmlqc'')"

definition toUpperCase :: "char \<Rightarrow> char" where
  "toUpperCase c =
     (if c = CHR ''m'' then CHR ''M'' else if c = CHR ''l'' then CHR ''L''
      else if c = CHR ''q'' then CHR ''Q'' else if c = CHR ''c'' then CHR ''C'' else c)"

text \<open>
  \<^verbatim>\<open>parseFloat\<close> on the strings that reach it here, which consist of digits, \<open>-\<close> and
  \<open>.\<close> only (a group \<^verbatim>\<open>[-\d.]+\<close> of a match, or a piece that \<^verbatim>\<open>split\<close> cuts out of
  \<^verbatim>\<open>[-\d.,\s]+\<close>): an optional minus sign, digits, and an optional point with digits; the
  longest such prefix is read, and without any digit in it the result is \<^verbatim>\<open>NaN\<close>, here
  \<open>None\<close>.
\<close>

definition digitVal :: "char \<Rightarrow> nat" where
  "digitVal c = length (takeWhile (\<lambda>d. d \<noteq> c) ''0123456789'')"

definition natOfDigits :: "string \<Rightarrow> nat" where
  "natOfDigits ds = foldl (\<lambda>n c. 10 * n + digitVal c) 0 ds"

definition parseUnsigned :: "string \<Rightarrow> real option" where
  "parseUnsigned s =
     (let ip = takeWhile isDigit s;
          r1 = dropWhile isDigit s;
          fp = (case r1 of c # r2 \<Rightarrow> if c = CHR ''.'' then takeWhile isDigit r2 else [] | [] \<Rightarrow> [])
      in if ip = [] \<and> fp = [] then None
         else Some (real (natOfDigits ip) + real (natOfDigits fp) / 10 ^ length fp))"

definition parseFloat :: "string \<Rightarrow> real option" where
  "parseFloat s =
     (case s of
        [] \<Rightarrow> None
      | c # r \<Rightarrow> if c = CHR ''-'' then map_option uminus (parseUnsigned r) else parseUnsigned s)"

text \<open>
  \<^verbatim>\<open>x.toFixed(2)\<close>: \<open>n\<close> is the integer nearest to \<open>100 \<bar>x\<bar>\<close>, the larger one on a tie;
  the digits of \<open>n\<close> are printed with a point before the last two, after a minus sign
  when \<open>x < 0\<close>. \<^verbatim>\<open>NaN\<close> prints as \<^verbatim>\<open>NaN\<close>.
\<close>

definition toFixed2 :: "real option \<Rightarrow> string" where
  "toFixed2 x =
     (case x of
        None \<Rightarrow> ''NaN''
      | Some v \<Rightarrow>
          (let n = nat \<lfloor>\<bar>v\<bar> * 100 + 1 / 2\<rfloor>
           in (if v < 0 then ''-'' else '''') @ digits (n div 100) @ ''.''
              @ [digitChar (n mod 100 div 10), digitChar (n mod 10)]))"

text \<open>
  \<^verbatim>\<open>coordsStr.trim().split(/[\s,]+/).map(parseFloat).filter(n => !isNaN(n))\<close>. \<open>splitAux\<close>
  carries the piece read so far; a run of separators ends it, and the end of the string
  ends the last piece, which is empty after a trailing separator, as in JavaScript.
\<close>

definition trim :: "string \<Rightarrow> string" where
  "trim s = rev (dropWhile isSpace (rev (dropWhile isSpace s)))"

function splitAux :: "string \<Rightarrow> string \<Rightarrow> string list" where
  "splitAux cur [] = [cur]"
| "splitAux cur (c # cs) =
     (if isSeparator c then cur # splitAux [] (dropWhile isSeparator cs)
      else splitAux (cur @ [c]) cs)"
  by pat_completeness auto
termination
  by (relation "measure (\<lambda>(cur, s). length s)") (auto simp: length_dropWhile_le less_Suc_eq_le)

definition split :: "string \<Rightarrow> string list" where
  "split s = splitAux [] s"

definition parseCoords :: "string \<Rightarrow> real list" where
  "parseCoords coordsStr = List.map_filter parseFloat (split (trim coordsStr))"

subsection \<open>The regular expressions\<close>

text \<open>
  \<^verbatim>\<open>transform.match(re)\<close> returns the first match: the expression is tried at every
  position from the left (\<open>firstMatch\<close>). In each expression a greedy class is followed by
  a character outside it, so matching never backtracks into a class:
  \<^verbatim>\<open>/rotate\(([-\d.]+)\s+([-\d.]+)\s+([-\d.]+)\)/\<close> is \<open>rotateAt\<close>, and
  \<^verbatim>\<open>/scale\(([-\d.]+),\s*([-\d.]+)\)/\<close> and \<^verbatim>\<open>/translate\(([-\d.]+),\s*([-\d.]+)\)/\<close> are
  \<open>pairAt\<close> with the name. The result is the tuple of the groups.
\<close>

fun stripPrefix :: "string \<Rightarrow> string \<Rightarrow> string option" where
  "stripPrefix [] s = Some s"
| "stripPrefix (p # ps) [] = None"
| "stripPrefix (p # ps) (c # cs) = (if p = c then stripPrefix ps cs else None)"

fun firstMatch :: "(string \<Rightarrow> 'a option) \<Rightarrow> string \<Rightarrow> 'a option" where
  "firstMatch f [] = f []"
| "firstMatch f (c # cs) = (case f (c # cs) of Some r \<Rightarrow> Some r | None \<Rightarrow> firstMatch f cs)"

definition closesHere :: "string \<Rightarrow> bool" where
  "closesHere s = (case s of c # _ \<Rightarrow> c = CHR '')'' | [] \<Rightarrow> False)"

definition rotateAt :: "string \<Rightarrow> (string \<times> string \<times> string) option" where
  "rotateAt s =
     (case stripPrefix ''rotate('' s of
        None \<Rightarrow> None
      | Some r0 \<Rightarrow>
          (let g1 = takeWhile isNumChar r0; r1 = dropWhile isNumChar r0;
               w1 = takeWhile isSpace r1; r2 = dropWhile isSpace r1;
               g2 = takeWhile isNumChar r2; r3 = dropWhile isNumChar r2;
               w2 = takeWhile isSpace r3; r4 = dropWhile isSpace r3;
               g3 = takeWhile isNumChar r4; r5 = dropWhile isNumChar r4
           in if g1 \<noteq> [] \<and> w1 \<noteq> [] \<and> g2 \<noteq> [] \<and> w2 \<noteq> [] \<and> g3 \<noteq> [] \<and> closesHere r5
              then Some (g1, g2, g3) else None))"

definition pairAt :: "string \<Rightarrow> string \<Rightarrow> (string \<times> string) option" where
  "pairAt name s =
     (case stripPrefix (name @ ''('') s of
        None \<Rightarrow> None
      | Some r0 \<Rightarrow>
          (let g1 = takeWhile isNumChar r0; r1 = dropWhile isNumChar r0
           in case r1 of
                [] \<Rightarrow> None
              | c # r2 \<Rightarrow>
                  (let r3 = dropWhile isSpace r2;
                       g2 = takeWhile isNumChar r3; r4 = dropWhile isNumChar r3
                   in if g1 \<noteq> [] \<and> c = CHR '','' \<and> g2 \<noteq> [] \<and> closesHere r4
                      then Some (g1, g2) else None)))"

definition rotateMatch :: "string \<Rightarrow> (string \<times> string \<times> string) option" where
  "rotateMatch transform = firstMatch rotateAt transform"

definition scaleMatch :: "string \<Rightarrow> (string \<times> string) option" where
  "scaleMatch transform = firstMatch (pairAt ''scale'') transform"

definition translateMatch :: "string \<Rightarrow> (string \<times> string) option" where
  "translateMatch transform = firstMatch (pairAt ''translate'') transform"

text \<open>
  \<^verbatim>\<open>/([MLQC])\s*([-\d.,\s]+)/gi\<close> at one position: a command letter, then the white space
  that \<^verbatim>\<open>\s*\<close> takes, then the longest run of the class. When that run is empty the
  expression gives back the last white space character to the class, if there is one.
  The result is the letter, the second group and the text after the match;
  \<^verbatim>\<open>commandRegex.exec(pathData)\<close> continues from there.
\<close>

definition commandAt :: "string \<Rightarrow> (char \<times> string \<times> string) option" where
  "commandAt s =
     (case s of
        [] \<Rightarrow> None
      | c # r \<Rightarrow>
          if isCommandLetter c
          then (let ws = takeWhile isSpace r; r1 = dropWhile isSpace r;
                    cs = takeWhile isCoordChar r1; r2 = dropWhile isCoordChar r1
                in if cs \<noteq> [] then Some (c, cs, r2)
                   else if ws \<noteq> [] then Some (c, [last ws], r1)
                   else None)
          else None)"

definition exec :: "string \<Rightarrow> (char \<times> string \<times> string) option" where
  "exec pathData = firstMatch commandAt pathData"

subsection \<open>The transform of one coordinate pair\<close>

text \<open>
  A number that may be \<^verbatim>\<open>NaN\<close>; arithmetic on numbers gives \<^verbatim>\<open>NaN\<close> when an operand is.
  The three matches of \<^verbatim>\<open>transformPathData\<close> are a record. \<open>applyTransforms\<close> is the body of
  the inner loop: the translation, then the scale, then the rotation.
\<close>

type_synonym number = "real option"

definition lift2 :: "(real \<Rightarrow> real \<Rightarrow> real) \<Rightarrow> number \<Rightarrow> number \<Rightarrow> number" where
  "lift2 f a b =
     (case a of None \<Rightarrow> None | Some u \<Rightarrow> (case b of None \<Rightarrow> None | Some v \<Rightarrow> Some (f u v)))"

record matches =
  rotateM :: "(string \<times> string \<times> string) option"
  scaleM :: "(string \<times> string) option"
  translateM :: "(string \<times> string) option"

definition applyTransforms :: "matches \<Rightarrow> number \<times> number \<Rightarrow> number \<times> number" where
  "applyTransforms ms p =
     (let x = fst p; y = snd p;
          (x, y) = (case translateM ms of
                      Some (g1, g2) \<Rightarrow> (lift2 (+) x (parseFloat g1), lift2 (+) y (parseFloat g2))
                    | None \<Rightarrow> (x, y));
          (x, y) = (case scaleM ms of
                      Some (g1, g2) \<Rightarrow>
                        (let scaleX = parseFloat g1; scaleY = parseFloat g2
                         in (lift2 (*) x scaleX, lift2 (*) y scaleY))
                    | None \<Rightarrow> (x, y));
          (x, y) = (case rotateM ms of
                      Some (g1, g2, g3) \<Rightarrow>
                        (let angle = lift2 (*) (parseFloat g1) (Some (pi / 180));
                             cx = parseFloat g2;
                             cy = parseFloat g3;
                             dx = lift2 (-) x cx;
                             dy = lift2 (-) y cy
                         in (lift2 (-) (lift2 (+) cx (lift2 (*) dx (map_option cos angle)))
                                       (lift2 (*) dy (map_option sin angle)),
                             lift2 (+) (lift2 (+) cy (lift2 (*) dx (map_option sin angle)))
                                       (lift2 (*) dy (map_option cos angle))))
                    | None \<Rightarrow> (x, y))
      in (x, y))"

subsection \<open>The loops\<close>

text \<open>
  \<^verbatim>\<open>for (let i = 0; i < coords.length; i += 2) { if (i + 1 >= coords.length) break; ... }\<close>
\<close>

function pairLoop :: "matches \<Rightarrow> real list \<Rightarrow> nat \<Rightarrow> string \<Rightarrow> string" where
  "pairLoop ms coords i transformedData =
     (if i < length coords
      then (if i + 1 \<ge> length coords then transformedData
            else (let (x, y) = applyTransforms ms (Some (coords ! i), Some (coords ! (i + 1)));
                      transformedData = (if i > 0 then transformedData @ '','' else transformedData);
                      transformedData = transformedData @ '' '' @ toFixed2 x @ '' '' @ toFixed2 y
                  in pairLoop ms coords (i + 2) transformedData))
      else transformedData)"
  by pat_completeness auto
termination
  by (relation "measure (\<lambda>(ms, coords, i, acc). length coords - i)") auto

text \<open>
  A match of the command expression is not empty, so the loop
  \<^verbatim>\<open>while ((match = commandRegex.exec(pathData)) !== null)\<close> ends.
\<close>

lemma firstMatch_commandAt_shorter:
  "firstMatch commandAt s = Some (c, g, rest) \<Longrightarrow> length rest < length s"
proof (induction s)
  case Nil
  then show ?case by (simp add: commandAt_def)
next
  case (Cons a s)
  show ?case
  proof (cases "commandAt (a # s)")
    case None
    then show ?thesis using Cons by auto
  next
    case (Some r)
    then have "r = (c, g, rest)" using Cons.prems by simp
    then show ?thesis using Some
      by (auto simp: commandAt_def Let_def less_Suc_eq_le split: if_splits
               intro: order_trans [OF length_dropWhile_le] order_trans [OF length_dropWhile_le length_dropWhile_le])
  qed
qed

function matchLoop :: "matches \<Rightarrow> string \<Rightarrow> string \<Rightarrow> string" where
  "matchLoop ms pathData transformedData =
     (case exec pathData of
        None \<Rightarrow> transformedData
      | Some (m1, m2, rest) \<Rightarrow>
          (let command = toUpperCase m1;
               coordsStr = m2;
               coords = parseCoords coordsStr;
               transformedData = transformedData @ [command];
               transformedData = pairLoop ms coords 0 transformedData;
               transformedData = transformedData @ '' ''
           in matchLoop ms rest transformedData))"
  by pat_completeness auto
termination
  by (relation "measure (\<lambda>(ms, pathData, acc). length pathData)")
     (auto simp: exec_def dest: firstMatch_commandAt_shorter)

definition transformPathData :: "string \<Rightarrow> string \<Rightarrow> string" where
  "transformPathData pathData transform =
     (let ms = \<lparr>rotateM = rotateMatch transform, scaleM = scaleMatch transform,
                translateM = translateMatch transform\<rparr>
      in trim (matchLoop ms pathData ''''))"

text \<open>
  \<^verbatim>\<open>bakeTransform(path)\<close>; \<^verbatim>\<open>!transform\<close> holds for a missing attribute and for the empty
  string, and so does \<^verbatim>\<open>!pathData\<close>. \<^verbatim>\<open>generateBakedPaths()\<close> bakes every path of the layer.
\<close>

definition bakeTransform :: "nat \<Rightarrow> element \<Rightarrow> element" where
  "bakeTransform fresh path =
     (let newPath = cloneNode fresh path;
          transform = getAttribute path ''transform''
      in case transform of
           None \<Rightarrow> removeAttribute newPath ''transform''
         | Some t \<Rightarrow>
             if t = [] then removeAttribute newPath ''transform''
             else (let pathData = getAttribute path ''d'';
                       newPath = (case pathData of
                                    None \<Rightarrow> newPath
                                  | Some pd \<Rightarrow>
                                      if pd = [] then newPath
                                      else setAttribute newPath ''d'' (transformPathData pd t))
                   in removeAttribute newPath ''transform''))"

definition generateBakedPaths :: "symmetryManager \<Rightarrow> element list" where
  "generateBakedPaths m =
     (let paths = getAllPaths m
      in map (\<lambda>(i, path). bakeTransform (nextId m + i) path) (enumerate 0 paths))"

declare pairLoop.simps [simp del] matchLoop.simps [simp del]

subsection \<open>What the baker reads and writes\<close>

text \<open>
  The commands that the loop finds in a path-data string, in order, each with its second
  group; the complete coordinate pairs of a list of numbers; and all coordinate pairs of
  a path-data string.
\<close>

function scanCommands :: "string \<Rightarrow> (char \<times> string) list" where
  "scanCommands pathData =
     (case exec pathData of
        None \<Rightarrow> []
      | Some (m1, m2, rest) \<Rightarrow> (m1, m2) # scanCommands rest)"
  by pat_completeness auto
termination
  by (relation "measure length") (auto simp: exec_def dest: firstMatch_commandAt_shorter)

declare scanCommands.simps [simp del]

fun pairsOf :: "real list \<Rightarrow> (real \<times> real) list" where
  "pairsOf (x # y # rest) = (x, y) # pairsOf rest"
| "pairsOf _ = []"

definition allPairs :: "string \<Rightarrow> (real \<times> real) list" where
  "allPairs pathData = concat (map (\<lambda>(m1, m2). pairsOf (parseCoords m2)) (scanCommands pathData))"

text \<open>
  Two lists of points agree within a tolerance, coordinate by coordinate.
\<close>

definition coordinatesWithin :: "real \<Rightarrow> (real \<times> real) list \<Rightarrow> (real \<times> real) list \<Rightarrow> bool" where
  "coordinatesWithin tolerance ps qs =
     list_all2 (\<lambda>p q. \<bar>fst p - fst q\<bar> \<le> tolerance \<and> \<bar>snd p - snd q\<bar> \<le> tolerance) ps qs"

text \<open>
  What the two loops append for one command, in closed form: its letter in upper case,
  then for each complete coordinate pair the result of \<open>applyTransforms\<close> with two
  decimals, the pairs separated by commas, and a space.
\<close>

definition renderPair :: "matches \<Rightarrow> real \<times> real \<Rightarrow> string" where
  "renderPair ms p =
     (let (x, y) = applyTransforms ms (Some (fst p), Some (snd p))
      in '' '' @ toFixed2 x @ '' '' @ toFixed2 y)"

definition renderPairs :: "matches \<Rightarrow> (real \<times> real) list \<Rightarrow> string" where
  "renderPairs ms ps =
     (case ps of [] \<Rightarrow> [] | p # rest \<Rightarrow> renderPair ms p @ concat (map (\<lambda>q. '','' @ renderPair ms q) rest))"

definition bakedCommand :: "matches \<Rightarrow> char \<times> string \<Rightarrow> string" where
  "bakedCommand ms cmd =
     toUpperCase (fst cmd) # renderPairs ms (pairsOf (parseCoords (snd cmd))) @ '' ''"

definition matchesOf :: "string \<Rightarrow> matches" where
  "matchesOf transform =
     \<lparr>rotateM = rotateMatch transform, scaleM = scaleMatch transform,
      translateM = translateMatch transform\<rparr>"


subsection \<open>The transform of the specification\<close>

text \<open>
  The numbers of a match: \<^verbatim>\<open>parseFloat\<close> of each group, when every group is a number.
\<close>

definition readPair :: "string \<times> string \<Rightarrow> (real \<times> real) option" where
  "readPair g =
     (case parseFloat (fst g) of
        None \<Rightarrow> None
      | Some a \<Rightarrow> (case parseFloat (snd g) of None \<Rightarrow> None | Some b \<Rightarrow> Some (a, b)))"

definition readTriple :: "string \<times> string \<times> string \<Rightarrow> (real \<times> real \<times> real) option" where
  "readTriple g =
     (case parseFloat (fst g) of
        None \<Rightarrow> None
      | Some a \<Rightarrow> map_option (Pair a) (readPair (snd g)))"










subsection \<open>Reading a baked path back\<close>

text \<open>
  What \<^verbatim>\<open>parseFloat\<close> reads from the text that \<^verbatim>\<open>toFixed(2)\<close> prints: the number rounded to
  two decimals.
\<close>

definition round2 :: "real \<Rightarrow> real" where
  "round2 v = (if v < 0 then - 1 else 1) * real (nat \<lfloor>\<bar>v\<bar> * 100 + 1 / 2\<rfloor>) / 100"

text \<open>
  A transform is total when it gives a number for every pair of numbers, that is when
  every group of its matches parses. Then \<open>transformed\<close> is the transformed pair and
  \<open>rounded\<close> the pair that the printed text denotes.
\<close>

definition total :: "matches \<Rightarrow> bool" where
  "total ms = (\<forall>x y. fst (applyTransforms ms (Some x, Some y)) \<noteq> None \<and>
                     snd (applyTransforms ms (Some x, Some y)) \<noteq> None)"

definition transformed :: "matches \<Rightarrow> real \<times> real \<Rightarrow> real \<times> real" where
  "transformed ms p =
     (the (fst (applyTransforms ms (Some (fst p), Some (snd p)))),
      the (snd (applyTransforms ms (Some (fst p), Some (snd p)))))"

definition rounded :: "matches \<Rightarrow> real \<times> real \<Rightarrow> real \<times> real" where
  "rounded ms p = (round2 (fst (transformed ms p)), round2 (snd (transformed ms p)))"

text \<open>
  The pieces of the text written for one command: a token is a non-empty run of
  \<^verbatim>\<open>[-\d.]\<close>; \<open>tokenX\<close> and \<open>tokenY\<close> are the two printed coordinates of a pair; \<open>bodyText\<close>
  is the text of all pairs of a command after its leading space, and \<open>tokens\<close> the list
  of its printed coordinates.
\<close>

definition isToken :: "string \<Rightarrow> bool" where
  "isToken tok = (tok \<noteq> [] \<and> list_all isNumChar tok)"

definition tokenX :: "matches \<Rightarrow> real \<times> real \<Rightarrow> string" where
  "tokenX ms p = toFixed2 (Some (fst (transformed ms p)))"

definition tokenY :: "matches \<Rightarrow> real \<times> real \<Rightarrow> string" where
  "tokenY ms p = toFixed2 (Some (snd (transformed ms p)))"

definition restText :: "matches \<Rightarrow> (real \<times> real) list \<Rightarrow> string" where
  "restText ms ps = concat (map (\<lambda>q. '','' @ renderPair ms q) ps)"

definition tokens :: "matches \<Rightarrow> (real \<times> real) list \<Rightarrow> string list" where
  "tokens ms ps = concat (map (\<lambda>q. [tokenX ms q, tokenY ms q]) ps)"

definition bodyText :: "matches \<Rightarrow> (real \<times> real) list \<Rightarrow> string" where
  "bodyText ms ps = (case ps of [] \<Rightarrow> [] | p # rest \<Rightarrow>
      tokenX ms p @ CHR '' '' # tokenY ms p @ restText ms rest)"

section \<open>Properties of the geometry kernel\<close>

lemma atan2_polar:
  assumes r: "0 < r" and t0: "0 \<le> t" and t1: "t < 2 * pi"
  shows "atan2 (r * sin t) (r * cos t) b = (if t \<le> pi then t else t - 2 * pi)"
proof -
  have q: "r * sin t / (r * cos t) = tan t" using r by (simp add: tan_def)
  have pos: "0 < r * cos t \<longleftrightarrow> 0 < cos t" "r * cos t < 0 \<longleftrightarrow> cos t < 0"
       "0 \<le> r * sin t \<longleftrightarrow> 0 \<le> sin t" "0 < r * sin t \<longleftrightarrow> 0 < sin t" "r * sin t < 0 \<longleftrightarrow> sin t < 0"
    using r by (simp_all add: zero_less_mult_iff mult_less_0_iff zero_le_mult_iff)
  have A: "atan2 (r * sin t) (r * cos t) b =
     (if 0 < cos t then arctan (tan t)
      else if cos t < 0 then (if 0 \<le> sin t then arctan (tan t) + pi else arctan (tan t) - pi)
      else if 0 < sin t then pi / 2
      else if sin t < 0 then - (pi / 2)
      else if b then pi else 0)"
    unfolding atan2_def q pos ..
  consider "t < pi/2" | "t = pi/2" | "pi/2 < t" "t \<le> pi" | "pi < t" "t < 3*pi/2" | "t = 3*pi/2" | "3*pi/2 < t"
    by linarith
  then show ?thesis
  proof cases
    case 1
    then have c: "0 < cos t" using t0 by (intro cos_gt_zero_pi) auto
    have "arctan (tan t) = t" using 1 t0 by (intro arctan_tan) auto
    moreover have "t \<le> pi" using 1 pi_gt_zero by linarith
    ultimately show ?thesis using c unfolding A by simp
  next
    case 2
    have cs: "cos t = 0" "sin t = 1" unfolding 2 by simp_all
    have le: "t \<le> pi" using 2 pi_gt_zero by linarith
    have "(if t \<le> pi then t else t - 2 * pi) = t" using le by simp
    also have "\<dots> = pi / 2" by (rule 2)
    finally have rhs: "(if t \<le> pi then t else t - 2 * pi) = pi / 2" .
    have "atan2 (r * sin t) (r * cos t) b = pi / 2" unfolding A by (simp add: cs)
    then show ?thesis unfolding rhs .
  next
    case 3
    have "cos (t - pi) > 0" using 3 by (intro cos_gt_zero_pi) auto
    then have c: "cos t < 0" by simp
    have "sin (pi - t) \<ge> 0" using 3 by (intro sin_ge_zero) auto
    then have s: "0 \<le> sin t" by simp
    have "arctan (tan (t - pi)) = t - pi" using 3 by (intro arctan_tan) auto
    moreover have "tan (t - pi) = tan t" using tan_periodic_pi [of "t - pi"] by simp
    ultimately have "arctan (tan t) = t - pi" by simp
    then show ?thesis using c s 3 unfolding A by simp
  next
    case 4
    have "cos (t - pi) > 0" using 4 by (intro cos_gt_zero_pi) auto
    then have c: "cos t < 0" by simp
    have "sin (t - pi) > 0" using 4 by (intro sin_gt_zero) auto
    then have s: "sin t < 0" by simp
    have "arctan (tan (t - pi)) = t - pi" using 4 by (intro arctan_tan) auto
    moreover have "tan (t - pi) = tan t" using tan_periodic_pi [of "t - pi"] by simp
    ultimately have "arctan (tan t) = t - pi" by simp
    moreover have "\<not> t \<le> pi" using 4 by linarith
    ultimately show ?thesis using c s unfolding A by simp
  next
    case 5
    have "t = pi/2 + pi" unfolding 5 by simp
    then have "cos t = cos (pi/2 + pi)" "sin t = sin (pi/2 + pi)" by (rule arg_cong)+
    then have cs: "cos t = 0" "sin t = -1" by (simp_all only: cos_periodic_pi sin_periodic_pi cos_pi_half sin_pi_half minus_zero)
    have nle: "\<not> t \<le> pi" using 5 pi_gt_zero by linarith
    have "(if t \<le> pi then t else t - 2 * pi) = t - 2 * pi" using nle by simp
    also have "\<dots> = - (pi / 2)" unfolding 5 by simp
    finally have rhs: "(if t \<le> pi then t else t - 2 * pi) = - (pi / 2)" .
    have "atan2 (r * sin t) (r * cos t) b = - (pi / 2)" unfolding A by (simp add: cs)
    then show ?thesis unfolding rhs .
  next
    case 6
    have "cos (t - 2*pi) > 0" using 6 t1 by (intro cos_gt_zero_pi) auto
    have per: "cos (t - 2*pi) = cos t" "sin (t - 2*pi) = sin t"
      using cos_periodic [of "t - 2*pi"] sin_periodic [of "t - 2*pi"] by simp_all
    have c: "cos t > 0" using \<open>cos (t - 2*pi) > 0\<close> unfolding per .
    have "arctan (tan (t - 2*pi)) = t - 2*pi" using 6 t1 by (intro arctan_tan) auto
    moreover have "tan (t - 2*pi) = tan t" unfolding tan_def per ..
    ultimately have "arctan (tan t) = t - 2*pi" by simp
    moreover have "\<not> t \<le> pi" using 6 pi_gt_zero by linarith
    ultimately show ?thesis using c unfolding A by simp
  qed
qed


lemma wedge_angle_polar:
  assumes r: "0 < r" and t0: "0 \<le> \<theta>" and t1: "\<theta> < 360"
  shows "(let angle = atan2 (r * sin (\<theta> * pi / 180)) (r * cos (\<theta> * pi / 180)) b * (180 / pi)
          in if angle < 0 then angle + 360 else angle) = \<theta>"
proof -
  let ?t = "\<theta> * pi / 180"
  have p: "0 < pi" by (rule pi_gt_zero)
  have a0: "0 \<le> ?t" using t0 p by simp
  have a1: "?t < 2 * pi" using t1 p by simp
  have conv: "?t * (180 / pi) = \<theta>" "(?t - 2 * pi) * (180 / pi) = \<theta> - 360"
    using p by (simp_all add: field_simps)
  show ?thesis
  proof (cases "?t \<le> pi")
    case True
    then have "atan2 (r * sin ?t) (r * cos ?t) b = ?t" using atan2_polar [OF r a0 a1] by simp
    then show ?thesis using t0 by (simp only: conv Let_def) simp
  next
    case False
    then have "atan2 (r * sin ?t) (r * cos ?t) b = ?t - 2 * pi" using atan2_polar [OF r a0 a1] by simp
    then show ?thesis using t1 by (simp only: conv Let_def) simp
  qed
qed

lemma polar_distance:
  assumes "0 \<le> r"
  shows "sqrt ((r * sin t) * (r * sin t) + (- (r * cos t)) * (- (r * cos t))) = r"
proof -
  have one: "sin t * sin t + cos t * cos t = 1"
    using sin_cos_squared_add [of t] by (simp add: power2_eq_square)
  have "(r * sin t) * (r * sin t) + (- (r * cos t)) * (- (r * cos t)) = (r * r) * (sin t * sin t + cos t * cos t)"
    by algebra
  also have "\<dots> = r * r" unfolding one by simp
  finally show ?thesis using assms by simp
qed

text \<open>
  Claim C1. A point at distance \<open>r > 0\<close> from the centre and at angle \<open>\<theta>\<close> degrees
  (\<open>0\<close> is up, increasing clockwise, \<open>0 \<le> \<theta> < 360\<close>) passes the wedge test if and only if
  \<open>r \<le> 400\<close> and \<open>\<theta> \<le> 30\<close>: both bounds are inclusive, and a larger radius or angle
  gives false. The angle that the code computes with \<^verbatim>\<open>atan2(dx, -dy)\<close> and normalises to
  \<open>[0, 360)\<close> is this \<open>\<theta>\<close> (lemma \<open>wedge_angle_polar\<close>).
\<close>

theorem isPointInWedge_polar:
  assumes r: "0 < r" and t0: "0 \<le> \<theta>" and t1: "\<theta> < 360"
  shows "isPointInWedge \<lparr>px = px c + r * sin (\<theta> * pi / 180), py = py c - r * cos (\<theta> * pi / 180)\<rparr> c
         \<longleftrightarrow> r \<le> 400 \<and> \<theta> \<le> 30"
proof -
  let ?t = "\<theta> * pi / 180"
  have d: "sqrt ((r * sin ?t) * (r * sin ?t) + (- (r * cos ?t)) * (- (r * cos ?t))) = r"
    using r by (intro polar_distance) simp
  have a: "(let angle = atan2 (r * sin ?t) (r * cos ?t) True * (180 / pi)
          in if angle < 0 then angle + 360 else angle) = \<theta>"
    by (rule wedge_angle_polar [OF r t0 t1])
  have "isPointInWedge \<lparr>px = px c + r * sin ?t, py = py c - r * cos ?t\<rparr> c
        = (if sqrt ((r * sin ?t) * (r * sin ?t) + (- (r * cos ?t)) * (- (r * cos ?t))) > 400 then False
           else (let angle = (let angle = atan2 (r * sin ?t) (r * cos ?t) True * (180 / pi)
                    in if angle < 0 then angle + 360 else angle)
                 in angle \<ge> 0 \<and> angle \<le> 30))"
    by (simp add: isPointInWedge_def Let_def)
  also have "\<dots> = (r \<le> 400 \<and> \<theta> \<le> 30)"
    unfolding d a using t0 by (auto simp: Let_def)
  finally show ?thesis .
qed

theorem isPointInWedge_polar_witness:
  "isPointInWedge \<lparr>px = 500, py = 400\<rparr> \<lparr>px = 500, py = 500\<rparr> \<and>
   \<not> isPointInWedge \<lparr>px = 500, py = 0\<rparr> \<lparr>px = 500, py = 500\<rparr>"
  using isPointInWedge_polar [of 100 0 "\<lparr>px = 500, py = 500\<rparr>"]
        isPointInWedge_polar [of 500 0 "\<lparr>px = 500, py = 500\<rparr>"]
  by simp

text \<open>
  The centre itself is at distance \<open>0\<close>; there the code computes
  \<^verbatim>\<open>Math.atan2(0, -0)\<close>, which is \<open>\<pi>\<close>, so the angle is \<open>180\<close> and the test is false.
\<close>

lemma isPointInWedge_apex: "\<not> isPointInWedge c c"
  using pi_gt_zero by (simp add: isPointInWedge_def atan2_def Let_def)


lemma arctan_pi_6: "arctan (1 / sqrt 3) = pi / 6"
  by (rule arctan_unique) (use pi_gt_zero in \<open>simp_all add: tan_30\<close>)

lemma atan2_gt_minus_pi: "- pi < atan2 y x b"
proof -
  have lo: "- (pi / 2) < arctan (y / x)" by (rule arctan_lbound)
  have p: "0 < pi" by (rule pi_gt_zero)
  show ?thesis
  proof (cases "x < 0 \<and> y < 0")
    case True
    then have "0 < y / x" by (simp add: zero_less_divide_iff)
    then have "0 < arctan (y / x)" by simp
    then show ?thesis using True by (simp add: atan2_def)
  next
    case False
    then show ?thesis by (auto simp: atan2_def) (use lo p in linarith)+
  qed
qed

lemma atan2_wedge:
  "(0 \<le> atan2 y x True \<and> atan2 y x True \<le> pi / 6) \<longleftrightarrow> (0 < x \<and> 0 \<le> y \<and> sqrt 3 * y \<le> x)"
proof -
  have p: "0 < pi" by (rule pi_gt_zero)
  consider "0 < x" | "x < 0" "0 \<le> y" | "x < 0" "y < 0" | "x = 0" by linarith
  then show ?thesis
  proof cases
    case 1
    have "arctan (y / x) \<le> pi / 6 \<longleftrightarrow> y / x \<le> 1 / sqrt 3"
      unfolding arctan_pi_6 [symmetric] by (rule arctan_le_iff)
    also have "\<dots> \<longleftrightarrow> sqrt 3 * y \<le> x" using 1 by (simp add: field_simps)
    finally have a: "arctan (y / x) \<le> pi / 6 \<longleftrightarrow> sqrt 3 * y \<le> x" .
    have b: "0 \<le> arctan (y / x) \<longleftrightarrow> 0 \<le> y" using 1 by (simp add: zero_le_divide_iff)
    show ?thesis using 1 a b by (simp add: atan2_def)
  next
    case 2
    have "- (pi / 2) < arctan (y / x)" by (rule arctan_lbound)
    then have "pi / 6 < arctan (y / x) + pi" using p by linarith
    then show ?thesis using 2 by (simp add: atan2_def)
  next
    case 3
    have "arctan (y / x) < pi / 2" by (rule arctan_ubound)
    then have "arctan (y / x) - pi < 0" using p by linarith
    then show ?thesis using 3 by (simp add: atan2_def)
  next
    case 4
    show ?thesis using 4 by (auto simp: atan2_def) (use p in linarith)+
  qed
qed

lemma wedge_angle_test:
  assumes "- pi < a"
  shows "(let angle = a * (180 / pi); angle = (if angle < 0 then angle + 360 else angle)
          in angle \<ge> 0 \<and> angle \<le> 30) \<longleftrightarrow> (0 \<le> a \<and> a \<le> pi / 6)"
proof -
  have p: "0 < pi" by (rule pi_gt_zero)
  have neg: "a * (180 / pi) < 0 \<longleftrightarrow> a < 0" using p by (simp add: field_simps)
  have up: "a * (180 / pi) \<le> 30 \<longleftrightarrow> a \<le> pi / 6" using p by (simp add: field_simps)
  have lo: "- 180 < a * (180 / pi)" using assms p by (simp add: field_simps)
  show ?thesis
  proof (cases "a < 0")
    case True
    then show ?thesis using lo neg by (simp add: Let_def)
  next
    case False
    then show ?thesis using neg up by (simp add: Let_def)
  qed
qed

lemma isPointInWedge_iff:
  "isPointInWedge p c \<longleftrightarrow>
     (px p - px c) * (px p - px c) + (py p - py c) * (py p - py c) \<le> 160000 \<and>
     py p < py c \<and> px c \<le> px p \<and> sqrt 3 * (px p - px c) \<le> py c - py p"
proof -
  let ?dx = "px p - px c" and ?dy = "py p - py c"
  have d: "sqrt (?dx * ?dx + ?dy * ?dy) > 400 \<longleftrightarrow> \<not> ?dx * ?dx + ?dy * ?dy \<le> 160000"
  proof -
    have "sqrt (400\<^sup>2) < sqrt (?dx * ?dx + ?dy * ?dy) \<longleftrightarrow> 400\<^sup>2 < ?dx * ?dx + ?dy * ?dy"
      by (rule real_sqrt_less_iff)
    then show ?thesis by (simp add: not_le)
  qed
  have "isPointInWedge p c \<longleftrightarrow> \<not> sqrt (?dx * ?dx + ?dy * ?dy) > 400 \<and>
      (let angle = atan2 ?dx (- ?dy) True * (180 / pi); angle = (if angle < 0 then angle + 360 else angle)
          in angle \<ge> 0 \<and> angle \<le> 30)"
    by (simp add: isPointInWedge_def Let_def)
  also have "\<dots> \<longleftrightarrow> ?dx * ?dx + ?dy * ?dy \<le> 160000 \<and> (0 \<le> atan2 ?dx (- ?dy) True \<and> atan2 ?dx (- ?dy) True \<le> pi / 6)"
    unfolding d wedge_angle_test [OF atan2_gt_minus_pi] by simp
  also have "\<dots> \<longleftrightarrow> ?dx * ?dx + ?dy * ?dy \<le> 160000 \<and> py p < py c \<and> px c \<le> px p \<and> sqrt 3 * ?dx \<le> py c - py p"
    unfolding atan2_wedge by auto
  finally show ?thesis .
qed


text \<open>
  The earlier revision has no radius limit: it accepts the point straight above the
  centre at distance \<open>500\<close>.
\<close>

lemma isPointInWedge_noRadius_far:
  "isPointInWedge_noRadius \<lparr>px = 500, py = 0\<rparr> \<lparr>px = 500, py = 500\<rparr>"
  by (simp add: isPointInWedge_noRadius_def atan2_def Let_def)

subsection \<open>Wedge clipping\<close>

lemma candidateStep_selInv:
  "selInv e seen st \<Longrightarrow> selInv e (seen @ [c]) (candidateStep c st)"
  by (cases c; cases st; cases "snd st")
     (fastforce simp: selInv_def candidateStep_def below_def)+

lemma fold_candidateStep:
  "selInv e seen st \<Longrightarrow> selInv e (seen @ cs) (fold candidateStep cs st)"
proof (induction cs arbitrary: st seen)
  case Nil
  then show ?case by simp
next
  case (Cons c cs)
  from Cons.IH [OF candidateStep_selInv [OF Cons.prems, of c]] show ?case by simp
qed


lemma quadratic_positive_root:
  fixes a b c t :: real
  assumes a: "0 < a" and c: "c \<le> 0"
  shows "0 \<le> b * b - 4 * a * c"
    and "0 < t \<Longrightarrow> a * t\<^sup>2 + b * t + c = 0 \<longleftrightarrow> t = (- b + sqrt (b * b - 4 * a * c)) / (2 * a)"
proof -
  let ?d = "b * b - 4 * a * c"
  have ac: "0 \<le> - (4 * a * c)" using a c by (simp add: mult_nonneg_nonpos)
  have bb: "0 \<le> b * b" by simp
  show d0: "0 \<le> ?d" using ac bb by linarith
  let ?r = "sqrt ?d"
  have rr: "?r * ?r = ?d" using d0 by simp
  have "b\<^sup>2 \<le> ?d" using ac by (simp add: power2_eq_square)
  then have "sqrt (b\<^sup>2) \<le> ?r" by (rule real_sqrt_le_mono)
  then have rb: "\<bar>b\<bar> \<le> ?r" by simp
  let ?tp = "(- b + ?r) / (2 * a)" and ?tm = "(- b - ?r) / (2 * a)"
  have tm: "?tm \<le> 0" using rb a by (simp add: field_simps)
  have fact: "a * t\<^sup>2 + b * t + c = a * ((t - ?tp) * (t - ?tm))"
  proof -
    have "a * ((t - ?tp) * (t - ?tm)) = a * t\<^sup>2 + b * t + (b * b - ?r * ?r) / (4 * a)"
      using a by (simp add: field_simps power2_eq_square)
    also have "(b * b - ?r * ?r) / (4 * a) = c" unfolding rr using a by simp
    finally show ?thesis by simp
  qed
  assume t: "0 < t"
  then have "t - ?tm \<noteq> 0" using tm by linarith
  then show "a * t\<^sup>2 + b * t + c = 0 \<longleftrightarrow> t = ?tp"
    unfolding fact using a by simp
qed


lemma onCircle_iff:
  assumes "start \<noteq> end"
    and "(px start - px center)\<^sup>2 + (py start - py center)\<^sup>2 \<le> 160000"
    and "0 < t"
  shows "onCircle center (pointAt start end t) \<longleftrightarrow> t = circleT start end center"
proof -
  let ?dx = "px end - px start" and ?dy = "py end - py start"
  let ?a = "?dx * ?dx + ?dy * ?dy"
  let ?b = "2 * ((px start - px center) * ?dx + (py start - py center) * ?dy)"
  let ?c = "(px start - px center)\<^sup>2 + (py start - py center)\<^sup>2 - 400 * 400"
  have "?dx \<noteq> 0 \<or> ?dy \<noteq> 0" using assms(1) by (cases start; cases "end") auto
  then have a: "0 < ?a" by (auto simp: sum_squares_gt_zero_iff [unfolded power2_eq_square] 
       intro: add_pos_nonneg add_nonneg_pos)
  have c: "?c \<le> 0" using assms(2) by simp
  have "onCircle center (pointAt start end t) \<longleftrightarrow> ?a * t\<^sup>2 + ?b * t + ?c = 0"
    unfolding onCircle_def pointAt_def by (simp add: power2_eq_square algebra_simps)
  also have "\<dots> \<longleftrightarrow> t = (- ?b + sqrt (?b * ?b - 4 * ?a * ?c)) / (2 * ?a)"
    by (rule quadratic_positive_root(2) [OF a c assms(3)])
  finally show ?thesis unfolding circleT_def Let_def .
qed

lemma onRay0_iff:
  assumes "px end \<noteq> px start"
  shows "onRay0 center (pointAt start end t) \<longleftrightarrow>
         t = ray0T start end center \<and> py start + t * (py end - py start) \<le> py center"
  using assms by (auto simp: onRay0_def pointAt_def ray0T_def field_simps)

lemma line_intersection:
  fixes dx dy lx ly wx wy t s :: real
  assumes D: "dx * ly - dy * lx \<noteq> 0"
  shows "(t * dx = wx + s * lx \<and> t * dy = wy + s * ly) \<longleftrightarrow>
         (t = (wx * ly - wy * lx) / (dx * ly - dy * lx) \<and>
          s = (wx * dy - wy * dx) / (dx * ly - dy * lx))"
proof
  let ?D = "dx * ly - dy * lx"
  assume e: "t * dx = wx + s * lx \<and> t * dy = wy + s * ly"
  have "t * ?D = (t * dx) * ly - (t * dy) * lx" by algebra
  also have "\<dots> = (wx + s * lx) * ly - (wy + s * ly) * lx" using e by simp
  also have "\<dots> = wx * ly - wy * lx" by algebra
  finally have t: "t = (wx * ly - wy * lx) / ?D" using D by (simp add: field_simps)
  have "s * ?D = dx * (s * ly) - dy * (s * lx)" by algebra
  also have "\<dots> = dx * (t * dy - wy) - dy * (t * dx - wx)" using e by simp
  also have "\<dots> = wx * dy - wy * dx" by algebra
  finally have "s = (wx * dy - wy * dx) / ?D" using D by (simp add: field_simps)
  with t show "t = (wx * ly - wy * lx) / ?D \<and> s = (wx * dy - wy * dx) / ?D" ..
next
  let ?D = "dx * ly - dy * lx"
  assume e: "t = (wx * ly - wy * lx) / ?D \<and> s = (wx * dy - wy * dx) / ?D"
  then have t: "t * ?D = wx * ly - wy * lx" and s: "s * ?D = wx * dy - wy * dx"
    using D by simp_all
  have "(t * dx - wx - s * lx) * ?D = (t * ?D) * dx - wx * ?D - (s * ?D) * lx" by algebra
  also have "\<dots> = (wx * ly - wy * lx) * dx - wx * ?D - (wx * dy - wy * dx) * lx"
    by (simp only: t s)
  also have "\<dots> = 0" by algebra
  finally have x: "t * dx = wx + s * lx" using D by simp
  have "(t * dy - wy - s * ly) * ?D = (t * ?D) * dy - wy * ?D - (s * ?D) * ly" by algebra
  also have "\<dots> = (wx * ly - wy * lx) * dy - wy * ?D - (wx * dy - wy * dx) * ly"
    by (simp only: t s)
  also have "\<dots> = 0" by algebra
  finally have y: "t * dy = wy + s * ly" using D by simp
  from x y show "t * dx = wx + s * lx \<and> t * dy = wy + s * ly" ..
qed

lemma onRay30_iff:
  assumes "det30 start end \<noteq> 0"
  shows "onRay30 center (pointAt start end t) \<longleftrightarrow>
         t = ray30T start end center \<and> 0 < ray30S start end center"
proof -
  let ?dx = "px end - px start" and ?dy = "py end - py start"
  let ?wx = "px center - px start" and ?wy = "py center - py start"
  let ?lx = "sin (pi / 6)" and ?ly = "- cos (pi / 6)"
  have D: "?dx * ?ly - ?dy * ?lx \<noteq> 0" using assms unfolding det30_def .
  have "onRay30 center (pointAt start end t) \<longleftrightarrow>
        (\<exists>s > 0. t * ?dx = ?wx + s * ?lx \<and> t * ?dy = ?wy + s * ?ly)"
    unfolding onRay30_def pointAt_def by (simp add: algebra_simps)
  also have "\<dots> \<longleftrightarrow> (\<exists>s > 0. t = (?wx * ?ly - ?wy * ?lx) / (?dx * ?ly - ?dy * ?lx) \<and>
                           s = (?wx * ?dy - ?wy * ?dx) / (?dx * ?ly - ?dy * ?lx))"
    unfolding line_intersection [OF D] ..
  also have "\<dots> \<longleftrightarrow> t = ray30T start end center \<and> 0 < ray30S start end center"
    unfolding ray30T_def ray30S_def det30_def by auto
  finally show ?thesis .
qed


lemma candidateStep_circle:
  "(if D then (if T > 0 \<and> T < 1 \<and> below T m then (p, Some T) else (r, m)) else (r, m))
   = candidateStep (D \<and> 0 < T \<and> T < 1, T, p) (r, m)"
  by (simp add: candidateStep_def)

lemma candidateStep_ray0:
  "(if N then (if T > 0 \<and> T < 1 \<and> below T m
              then (if Y \<le> cy then (p, Some T) else (r, m)) else (r, m)) else (r, m))
   = candidateStep (N \<and> 0 < T \<and> T < 1 \<and> Y \<le> cy, T, p) (r, m)"
  by (simp add: candidateStep_def)

lemma candidateStep_ray30:
  "(if N then (if T > 0 \<and> T < 1 \<and> S > 0 \<and> below T m then (p, Some T) else (r, m)) else (r, m))
   = candidateStep (N \<and> 0 < T \<and> T < 1 \<and> 0 < S, T, p) (r, m)"
  by (simp add: candidateStep_def)

lemma clipLineToWedge_fold:
  assumes "\<not> isPointInWedge end center"
  shows "clipLineToWedge start end center
         = fst (fold candidateStep (candidates start end center) (end, None))"
proof -
  have ang: "30 * pi / 180 = pi / 6" by simp
  show ?thesis
    unfolding clipLineToWedge_def candidates_def circleT_def ray0T_def ray30T_def ray30S_def
      det30_def pointAt_def
    by (simp only: assms if_False Let_def ang point.select_convs
         candidateStep_circle candidateStep_ray0 candidateStep_ray30 split_beta fst_conv snd_conv
         fold.simps id_apply comp_apply prod.collapse)
qed


lemma candidates_valid:
  assumes inside: "isPointInWedge start center" and outside: "\<not> isPointInWedge end center"
  shows "validCrossing start end center t \<longleftrightarrow>
         (\<exists>c \<in> set (candidates start end center). fst c \<and> fst (snd c) = t)"
    and "\<forall>c \<in> set (candidates start end center). fst c \<longrightarrow> snd (snd c) = pointAt start end (fst (snd c))"
proof -
  let ?dx = "px end - px start" and ?dy = "py end - py start"
  let ?a = "?dx * ?dx + ?dy * ?dy"
  let ?b = "2 * ((px start - px center) * ?dx + (py start - py center) * ?dy)"
  let ?c = "(px start - px center)\<^sup>2 + (py start - py center)\<^sup>2 - 400 * 400"
  have ne: "start \<noteq> end" using inside outside by auto
  have disc: "(px start - px center)\<^sup>2 + (py start - py center)\<^sup>2 \<le> 160000"
    using inside unfolding isPointInWedge_iff power2_eq_square by simp
  have "?dx \<noteq> 0 \<or> ?dy \<noteq> 0" using ne by (cases start; cases "end") auto
  then have a: "0 < ?a" by (auto simp: sum_squares_gt_zero_iff [unfolded power2_eq_square] 
       intro: add_pos_nonneg add_nonneg_pos)
  have c: "?c \<le> 0" using disc by simp
  have d0: "0 \<le> ?b * ?b - 4 * ?a * ?c" by (rule quadratic_positive_root(1) [OF a c])
  have circ: "0 < t \<and> t < 1 \<and> onCircle center (pointAt start end t) \<longleftrightarrow>
     (0 \<le> ?b * ?b - 4 * ?a * ?c \<and> 0 < circleT start end center \<and> circleT start end center < 1)
       \<and> circleT start end center = t"
    using onCircle_iff [OF ne disc, of t] d0 by auto
  have r0: "0 < t \<and> t < 1 \<and> ?dx \<noteq> 0 \<and> onRay0 center (pointAt start end t) \<longleftrightarrow>
     (?dx \<noteq> 0 \<and> 0 < ray0T start end center \<and> ray0T start end center < 1 \<and>
        py start + ray0T start end center * ?dy \<le> py center) \<and> ray0T start end center = t"
    using onRay0_iff [of "end" start center t] by auto
  have r30: "0 < t \<and> t < 1 \<and> \<bar>det30 start end\<bar> > 0.0001 \<and> onRay30 center (pointAt start end t) \<longleftrightarrow>
     (\<bar>det30 start end\<bar> > 0.0001 \<and> 0 < ray30T start end center \<and> ray30T start end center < 1 \<and>
        0 < ray30S start end center) \<and> ray30T start end center = t"
  proof (cases "\<bar>det30 start end\<bar> > 0.0001")
    case True
    then have "det30 start end \<noteq> 0" by auto
    from onRay30_iff [OF this, of center t] True show ?thesis by auto
  next
    case False
    then show ?thesis by simp
  qed
  have "validCrossing start end center t \<longleftrightarrow>
     (0 < t \<and> t < 1 \<and> onCircle center (pointAt start end t)) \<or>
     (0 < t \<and> t < 1 \<and> ?dx \<noteq> 0 \<and> onRay0 center (pointAt start end t)) \<or>
     (0 < t \<and> t < 1 \<and> \<bar>det30 start end\<bar> > 0.0001 \<and> onRay30 center (pointAt start end t))"
    unfolding validCrossing_def det30_def by auto
  then show "validCrossing start end center t \<longleftrightarrow>
         (\<exists>c \<in> set (candidates start end center). fst c \<and> fst (snd c) = t)"
    unfolding circ r0 r30 by (simp add: candidates_def Let_def)
  show "\<forall>c \<in> set (candidates start end center). fst c \<longrightarrow> snd (snd c) = pointAt start end (fst (snd c))"
    by (simp add: candidates_def Let_def pointAt_def ray0T_def)
qed

lemma sqrt3_le_10: "sqrt 3 * 10 \<le> 100"
proof -
  have "sqrt 3 \<le> sqrt (10\<^sup>2)" by (subst real_sqrt_le_iff) simp
  then show ?thesis by simp
qed

text \<open>
  Claim C4. For a start point inside the wedge: when the end point is inside the wedge it is
  returned unchanged; otherwise, when the segment has a valid crossing, the result is the
  point of the segment at the smallest parameter of a valid crossing, and when it has
  none the result is the end point, unclipped.
\<close>

theorem clipLineToWedge_smallest_crossing:
  assumes inside: "isPointInWedge start center"
  shows "if isPointInWedge end center then clipLineToWedge start end center = end
         else if \<exists>t. validCrossing start end center t
              then \<exists>t. validCrossing start end center t \<and>
                       (\<forall>u. validCrossing start end center u \<longrightarrow> t \<le> u) \<and>
                       clipLineToWedge start end center = pointAt start end t
              else clipLineToWedge start end center = end"
proof (cases "isPointInWedge end center")
  case True
  then show ?thesis by (simp add: clipLineToWedge_def)
next
  case False
  note v = candidates_valid [OF inside False]
  let ?cs = "candidates start end center"
  let ?res = "fold candidateStep ?cs (end, None)"
  have clip: "clipLineToWedge start end center = fst ?res" by (rule clipLineToWedge_fold [OF False])
  have "selInv end [] (end, None)" by (simp add: selInv_def)
  from fold_candidateStep [OF this, of ?cs] have inv: "selInv end ?cs ?res" by simp
  show ?thesis
  proof (cases "snd ?res")
    case None
    then have "fst ?res = end" "\<forall>c \<in> set ?cs. \<not> fst c" using inv by (simp_all add: selInv_def)
    then have "clipLineToWedge start end center = end" "\<not> (\<exists>t. validCrossing start end center t)"
      using clip v(1) by auto
    then show ?thesis using False by simp
  next
    case (Some tm)
    then have mem: "(True, tm, fst ?res) \<in> set ?cs"
      and least: "\<forall>c \<in> set ?cs. fst c \<longrightarrow> tm \<le> fst (snd c)"
      using inv by (simp_all add: selInv_def)
    have valid: "validCrossing start end center tm" unfolding v(1) using mem by force
    have pt: "fst ?res = pointAt start end tm" using v(2) mem by force
    have "\<forall>u. validCrossing start end center u \<longrightarrow> tm \<le> u" unfolding v(1) using least by auto
    then show ?thesis using False valid pt clip by auto
  qed
qed


theorem clipLineToWedge_smallest_crossing_witness:
  "isPointInWedge \<lparr>px = 510, py = 400\<rparr> \<lparr>px = 500, py = 500\<rparr> \<and>
   \<not> isPointInWedge \<lparr>px = 490, py = 400\<rparr> \<lparr>px = 500, py = 500\<rparr> \<and>
   (\<exists>t. validCrossing \<lparr>px = 510, py = 400\<rparr> \<lparr>px = 490, py = 400\<rparr> \<lparr>px = 500, py = 500\<rparr> t \<and>
        (\<forall>u. validCrossing \<lparr>px = 510, py = 400\<rparr> \<lparr>px = 490, py = 400\<rparr> \<lparr>px = 500, py = 500\<rparr> u \<longrightarrow> t \<le> u) \<and>
        clipLineToWedge \<lparr>px = 510, py = 400\<rparr> \<lparr>px = 490, py = 400\<rparr> \<lparr>px = 500, py = 500\<rparr>
          = pointAt \<lparr>px = 510, py = 400\<rparr> \<lparr>px = 490, py = 400\<rparr> t)"
proof -
  let ?s = "\<lparr>px = 510, py = 400\<rparr>" and ?e = "\<lparr>px = 490, py = 400\<rparr>" and ?c = "\<lparr>px = 500, py = 500\<rparr>"
  have i: "isPointInWedge ?s ?c" using sqrt3_le_10 by (simp add: isPointInWedge_iff)
  have o: "\<not> isPointInWedge ?e ?c" by (simp add: isPointInWedge_iff)
  have v: "validCrossing ?s ?e ?c (1 / 2)"
    by (simp add: validCrossing_def onRay0_def pointAt_def)
  then have ex: "\<exists>t. validCrossing ?s ?e ?c t" ..
  have "\<exists>t. validCrossing ?s ?e ?c t \<and> (\<forall>u. validCrossing ?s ?e ?c u \<longrightarrow> t \<le> u) \<and>
        clipLineToWedge ?s ?e ?c = pointAt ?s ?e t"
    using clipLineToWedge_smallest_crossing [OF i, of ?e] unfolding if_not_P [OF o] if_P [OF ex] .
  with i o show ?thesis by blast
qed

section \<open>Properties of the endpoint snapper\<close>

lemma snapLoop_nearestOf:
  "nearestOf p seen nearest \<Longrightarrow> nearestOf p (seen @ es) (snapLoop p es nearest)"
proof (induction es arbitrary: seen nearest)
  case Nil
  then show ?case by simp
next
  case (Cons e es)
  let ?n = "(if distance p e < SNAP_THRESHOLD
            then (if nearest = None \<or> distance p e < snd (the nearest) then Some (e, distance p e) else nearest)
            else nearest)"
  have "nearestOf p (seen @ [e]) ?n"
    using Cons.prems by (auto simp: nearestOf_def list_all_iff split: option.splits)
  from Cons.IH [OF this] show ?case by (simp add: Let_def)
qed

text \<open>
  Claim C6. When some endpoint is closer than \<open>20\<close> units to the candidate, the snapper
  returns an endpoint of minimum distance to the candidate (and that distance is below
  \<open>20\<close>); otherwise it returns the candidate unchanged. The witness is the scenario of the
  specification: \<open>(551, 451)\<close> snaps to the endpoint \<open>(550, 450)\<close>, and \<open>(580, 450)\<close>, at
  distance \<open>30\<close>, does not.
\<close>

theorem snap_nearest:
  "(if \<exists>e \<in> set es. distance p e < 20
    then snapToNearestSnowflakeEndpoint p es \<in> set es \<and>
         distance p (snapToNearestSnowflakeEndpoint p es) < 20 \<and>
         (\<forall>e \<in> set es. distance p (snapToNearestSnowflakeEndpoint p es) \<le> distance p e)
    else snapToNearestSnowflakeEndpoint p es = p)"
proof -
  have "nearestOf p [] None" by (simp add: nearestOf_def)
  from snapLoop_nearestOf [OF this, of es]
  have "nearestOf p es (snapLoop p es None)" by simp
  then show ?thesis
    by (auto simp: nearestOf_def snapToNearestSnowflakeEndpoint_def SNAP_THRESHOLD_def list_all_iff
             split: option.splits)
qed

lemma distance_551_451: "distance \<lparr>px = 551, py = 451\<rparr> \<lparr>px = 550, py = 450\<rparr> < 20"
proof -
  have "sqrt 2 < sqrt (20\<^sup>2)" by (subst real_sqrt_less_iff) simp
  then show ?thesis by (simp add: distance_def)
qed

lemma distance_580_450: "\<not> distance \<lparr>px = 580, py = 450\<rparr> \<lparr>px = 550, py = 450\<rparr> < 20"
  by (simp add: distance_def)

theorem snap_nearest_witness:
  "snapToNearestSnowflakeEndpoint \<lparr>px = 551, py = 451\<rparr> [\<lparr>px = 550, py = 450\<rparr>] = \<lparr>px = 550, py = 450\<rparr> \<and>
   snapToNearestSnowflakeEndpoint \<lparr>px = 580, py = 450\<rparr> [\<lparr>px = 550, py = 450\<rparr>] = \<lparr>px = 580, py = 450\<rparr>"
  using snap_nearest [of "[\<lparr>px = 550, py = 450\<rparr>]" "\<lparr>px = 551, py = 451\<rparr>"]
        snap_nearest [of "[\<lparr>px = 550, py = 450\<rparr>]" "\<lparr>px = 580, py = 450\<rparr>"] distance_551_451 distance_580_450
  by simp

section \<open>Properties of the simplification\<close>

lemma fold_maxStep_inv:
  "1 \<le> lo \<Longrightarrow> lo \<le> hi \<Longrightarrow> 0 \<le> fst acc \<Longrightarrow> ((snd acc = 0 \<and> fst acc = 0) \<or> (1 \<le> snd acc \<and> snd acc < lo \<and> 0 < fst acc)) \<Longrightarrow>
   (\<forall>i. 1 \<le> i \<and> i < lo \<longrightarrow> perpendicularDistance (pts ! i) (pts ! 0) (pts ! e) \<le> fst acc) \<Longrightarrow>
   (let r = fold (maxStep pts e) [lo..<hi] acc
    in 0 \<le> fst r \<and> ((snd r = 0 \<and> fst r = 0) \<or> (1 \<le> snd r \<and> snd r < hi \<and> 0 < fst r)) \<and>
       (\<forall>i. 1 \<le> i \<and> i < hi \<longrightarrow> perpendicularDistance (pts ! i) (pts ! 0) (pts ! e) \<le> fst r))"
proof (induction "hi - lo" arbitrary: lo acc)
  case 0
  then show ?case by simp
next
  case (Suc n)
  then have lt: "lo < hi" by simp
  let ?acc = "maxStep pts e lo acc"
  have step: "[lo..<hi] = lo # [Suc lo..<hi]" using lt by (simp add: upt_conv_Cons)
  have a: "0 \<le> fst ?acc" using Suc.prems(3) by (simp add: maxStep_def Let_def)
  have b: "(snd ?acc = 0 \<and> fst ?acc = 0) \<or> (1 \<le> snd ?acc \<and> snd ?acc < Suc lo \<and> 0 < fst ?acc)"
    using Suc.prems(1,3,4) by (auto simp: maxStep_def Let_def)
  have c: "\<forall>i. 1 \<le> i \<and> i < Suc lo \<longrightarrow> perpendicularDistance (pts ! i) (pts ! 0) (pts ! e) \<le> fst ?acc"
  proof (intro allI impI)
    fix i assume i: "1 \<le> i \<and> i < Suc lo"
    show "perpendicularDistance (pts ! i) (pts ! 0) (pts ! e) \<le> fst ?acc"
    proof (cases "i = lo")
      case True
      then show ?thesis by (simp add: maxStep_def Let_def)
    next
      case False
      then have "perpendicularDistance (pts ! i) (pts ! 0) (pts ! e) \<le> fst acc"
        using i Suc.prems(5) by simp
      then show ?thesis by (simp add: maxStep_def Let_def)
    qed
  qed
  have "n = hi - Suc lo" using Suc.hyps(2) by simp
  from Suc.hyps(1) [OF this _ _ a b c] lt show ?case by (simp add: step)
qed


lemma findMax_props:
  assumes "findMax pts = (maxDistance, maxIndex)"
  shows "0 \<le> maxDistance \<and>
     ((maxIndex = 0 \<and> maxDistance = 0) \<or> (1 \<le> maxIndex \<and> maxIndex < length pts - 1 \<and> 0 < maxDistance)) \<and>
     (\<forall>i. 1 \<le> i \<and> i < length pts - 1 \<longrightarrow>
           perpendicularDistance (pts ! i) (pts ! 0) (pts ! (length pts - 1)) \<le> maxDistance)"
proof (cases "1 \<le> length pts - 1")
  case True
  let ?e = "length pts - 1"
  have inv: "let r = fold (maxStep pts ?e) [1..<?e] (0, 0)
    in 0 \<le> fst r \<and> ((snd r = 0 \<and> fst r = 0) \<or> (1 \<le> snd r \<and> snd r < ?e \<and> 0 < fst r)) \<and>
       (\<forall>i. 1 \<le> i \<and> i < ?e \<longrightarrow> perpendicularDistance (pts ! i) (pts ! 0) (pts ! ?e) \<le> fst r)"
    by (rule fold_maxStep_inv) (use True in simp_all)
  have r: "fold (maxStep pts ?e) [1..<?e] (0, 0) = (maxDistance, maxIndex)"
    using assms by (simp add: findMax_def Let_def)
  from inv show ?thesis unfolding r by (simp add: Let_def)
next
  case False
  then have "findMax pts = (0, 0)" by (simp add: findMax_def Let_def)
  with assms False show ?thesis by simp
qed

lemma perpendicularDistance_lineStart: "perpendicularDistance a a b = 0"
proof -
  have "(py b - py a) * px a - (px b - px a) * py a + px b * py a - py b * px a = 0"
    by (simp add: algebra_simps)
  then show ?thesis by (simp add: perpendicularDistance_def Let_def)
qed

lemma perpendicularDistance_lineEnd: "perpendicularDistance b a b = 0"
proof -
  have "(py b - py a) * px b - (px b - px a) * py b + px b * py a - py b * px a = 0"
    by (simp add: algebra_simps)
  moreover have "px b - px a = 0 \<and> py b - py a = 0 \<Longrightarrow> px b - px a = 0 \<and> py b - py a = 0" .
  ultimately show ?thesis by (auto simp: perpendicularDistance_def Let_def)
qed

lemma join_nth_left:
  assumes "2 \<le> length rl" "rr \<noteq> []" "last rl = hd rr" "k < length rl"
  shows "(butlast rl @ rr) ! k = rl ! k"
proof (cases "k < length rl - 1")
  case True
  then show ?thesis by (simp add: nth_append nth_butlast)
next
  case False
  then have k: "k = length rl - 1" using assms(4) by simp
  have "rl \<noteq> []" using assms(1) by auto
  then have "rl ! k = last rl" unfolding k by (simp add: last_conv_nth)
  moreover have "(butlast rl @ rr) ! k = rr ! 0" unfolding k by (simp add: nth_append)
  moreover have "rr ! 0 = hd rr" using assms(2) by (simp add: hd_conv_nth)
  ultimately show ?thesis using assms(3) by simp
qed

lemma join_nth_right:
  assumes "rl \<noteq> []"
  shows "(butlast rl @ rr) ! (length rl - 1 + k) = rr ! k"
  by (simp add: nth_append)

lemma withinEpsilon_join_left:
  assumes "withinEpsilon epsilon xs rl" "2 \<le> length rl" "rr \<noteq> []" "last rl = hd rr"
  shows "withinEpsilon epsilon xs (butlast rl @ rr)"
  unfolding withinEpsilon_def list_all_iff
proof
  fix p assume "p \<in> set xs"
  then obtain j where j: "Suc j < length rl" "perpendicularDistance p (rl ! j) (rl ! Suc j) \<le> epsilon"
    using assms(1) unfolding withinEpsilon_def list_all_iff by blast
  have "(butlast rl @ rr) ! j = rl ! j" "(butlast rl @ rr) ! Suc j = rl ! Suc j"
    using j(1) assms(2-4) by (simp_all add: join_nth_left)
  moreover have "Suc j < length (butlast rl @ rr)" using j(1) assms(3) by (cases rr) simp_all
  ultimately show "\<exists>j. Suc j < length (butlast rl @ rr) \<and>
      perpendicularDistance p ((butlast rl @ rr) ! j) ((butlast rl @ rr) ! Suc j) \<le> epsilon"
    using j(2) by auto
qed

lemma withinEpsilon_join_right:
  assumes "withinEpsilon epsilon xs rr" "rl \<noteq> []"
  shows "withinEpsilon epsilon xs (butlast rl @ rr)"
  unfolding withinEpsilon_def list_all_iff
proof
  fix p assume "p \<in> set xs"
  then obtain j where j: "Suc j < length rr" "perpendicularDistance p (rr ! j) (rr ! Suc j) \<le> epsilon"
    using assms(1) unfolding withinEpsilon_def list_all_iff by blast
  let ?k = "length rl - 1 + j"
  have "(butlast rl @ rr) ! ?k = rr ! j" using assms(2) by (rule join_nth_right)
  moreover have "(butlast rl @ rr) ! Suc ?k = rr ! Suc j"
    using join_nth_right [OF assms(2), of rr "Suc j"] by simp
  moreover have "Suc ?k < length (butlast rl @ rr)" using j(1) by simp
  ultimately show "\<exists>j. Suc j < length (butlast rl @ rr) \<and>
      perpendicularDistance p ((butlast rl @ rr) ! j) ((butlast rl @ rr) ! Suc j) \<le> epsilon"
    using j(2) by metis
qed

lemma withinEpsilon_chord:
  assumes "3 \<le> length pts" "0 \<le> epsilon"
    and "\<forall>i. 1 \<le> i \<and> i < length pts - 1 \<longrightarrow>
           perpendicularDistance (pts ! i) (pts ! 0) (pts ! (length pts - 1)) \<le> epsilon"
  shows "withinEpsilon epsilon pts [pts ! 0, pts ! (length pts - 1)]"
  unfolding withinEpsilon_def list_all_iff
proof
  fix p assume "p \<in> set pts"
  then obtain i where i: "i < length pts" "p = pts ! i" by (auto simp: in_set_conv_nth)
  have "perpendicularDistance p (pts ! 0) (pts ! (length pts - 1)) \<le> epsilon"
  proof -
    consider "i = 0" | "i = length pts - 1" | "1 \<le> i" "i < length pts - 1"
      using i(1) by linarith
    then show ?thesis
    proof cases
      case 1 then show ?thesis using assms(2) i(2) by (simp add: perpendicularDistance_lineStart)
    next
      case 2 then show ?thesis using assms(2) i(2) by (simp add: perpendicularDistance_lineEnd)
    next
      case 3 then show ?thesis using assms(3) i(2) by simp
    qed
  qed
  then show "\<exists>j. Suc j < length [pts ! 0, pts ! (length pts - 1)] \<and>
      perpendicularDistance p ([pts ! 0, pts ! (length pts - 1)] ! j)
        ([pts ! 0, pts ! (length pts - 1)] ! Suc j) \<le> epsilon"
    by (intro exI [of _ 0]) simp
qed

lemma withinEpsilon_two:
  assumes "length pts = 2" "0 \<le> epsilon"
  shows "withinEpsilon epsilon pts pts"
proof -
  obtain a b where ab: "pts = [a, b]"
    using assms(1) by (metis One_nat_def Suc_1 length_0_conv length_Suc_conv)
  have "\<exists>j. Suc j < length [a, b] \<and> perpendicularDistance a ([a, b] ! j) ([a, b] ! Suc j) \<le> epsilon"
    using assms(2) by (intro exI [of _ 0]) (simp add: perpendicularDistance_lineStart)
  moreover have "\<exists>j. Suc j < length [a, b] \<and> perpendicularDistance b ([a, b] ! j) ([a, b] ! Suc j) \<le> epsilon"
    using assms(2) by (intro exI [of _ 0]) (simp add: perpendicularDistance_lineEnd)
  ultimately show ?thesis unfolding ab withinEpsilon_def by simp
qed

lemma simplifyPath_sound:
  assumes "0 \<le> epsilon"
  shows "2 \<le> length pts \<Longrightarrow> length pts \<le> Suc fuel \<Longrightarrow>
     \<exists>r. simplifyPath fuel pts epsilon = Some r \<and> 2 \<le> length r \<and>
         hd r = hd pts \<and> last r = last pts \<and> withinEpsilon epsilon pts r"
proof (induction fuel arbitrary: pts)
  case 0
  then show ?case by simp
next
  case (Suc fuel)
  show ?case
  proof (cases "length pts \<le> 2")
    case True
    then have "length pts = 2" using Suc.prems(1) by simp
    then show ?thesis using True assms by (simp add: withinEpsilon_two)
  next
    case False
    then have len: "3 \<le> length pts" by simp
    obtain maxDistance maxIndex where fm: "findMax pts = (maxDistance, maxIndex)"
      by (cases "findMax pts")
    note props = findMax_props [OF fm]
    let ?e = "length pts - 1"
    have hd0: "pts ! 0 = hd pts" using len by (cases pts) simp_all
    have laste: "pts ! ?e = last pts" using len by (cases pts) (simp_all add: last_conv_nth)
    show ?thesis
    proof (cases "maxDistance > epsilon")
      case True
      then have "0 < maxDistance" using assms by simp
      then have mi: "1 \<le> maxIndex" "maxIndex < ?e" using props True assms by auto
      let ?l = "take (maxIndex + 1) pts" and ?r = "drop maxIndex pts"
      have ll: "2 \<le> length ?l" "length ?l \<le> Suc fuel" using mi Suc.prems(2) by simp_all
      have lr: "2 \<le> length ?r" "length ?r \<le> Suc fuel" using mi Suc.prems(2) by simp_all
      from Suc.IH [OF ll] obtain rl where rl: "simplifyPath fuel ?l epsilon = Some rl"
        "2 \<le> length rl" "hd rl = hd ?l" "last rl = last ?l" "withinEpsilon epsilon ?l rl" by blast
      from Suc.IH [OF lr] obtain rr where rr: "simplifyPath fuel ?r epsilon = Some rr"
        "2 \<le> length rr" "hd rr = hd ?r" "last rr = last ?r" "withinEpsilon epsilon ?r rr" by blast
      have rlne: "rl \<noteq> []" and rrne: "rr \<noteq> []" using rl(2) rr(2) by auto
      have bl: "butlast rl \<noteq> []" using rl(2) by (cases rl rule: rev_cases) auto
      have "last ?l = pts ! maxIndex" using mi by (simp add: take_Suc_conv_app_nth)
      moreover have "hd ?r = pts ! maxIndex" using mi by (simp add: hd_drop_conv_nth)
      ultimately have glue: "last rl = hd rr" using rl(4) rr(3) by simp
      have res: "simplifyPath (Suc fuel) pts epsilon = Some (butlast rl @ rr)"
        using False True fm rl(1) rr(1) by simp
      have h: "hd (butlast rl @ rr) = hd pts"
      proof -
        have "hd (butlast rl @ rr) = hd (butlast rl)" using bl by simp
        also have "\<dots> = hd rl" using bl by (cases rl) (auto split: if_splits)
        also have "\<dots> = hd pts" using rl(3) by simp
        finally show ?thesis .
      qed
      have l: "last (butlast rl @ rr) = last pts" using rrne rr(4) mi by simp
      have w1: "withinEpsilon epsilon ?l (butlast rl @ rr)"
        using rl(5) rl(2) rrne glue by (rule withinEpsilon_join_left)
      have w2: "withinEpsilon epsilon ?r (butlast rl @ rr)"
        using rr(5) rlne by (rule withinEpsilon_join_right)
      have "set pts \<subseteq> set ?l \<union> set ?r"
      proof -
        have "set pts = set (take maxIndex pts) \<union> set ?r"
          by (metis append_take_drop_id set_append)
        moreover have "set (take maxIndex pts) \<subseteq> set ?l" by (rule set_take_subset_set_take) simp
        ultimately show ?thesis by auto
      qed
      then have w: "withinEpsilon epsilon pts (butlast rl @ rr)"
        using w1 w2 unfolding withinEpsilon_def list_all_iff by blast
      have "2 \<le> length (butlast rl @ rr)" using rr(2) by simp
      then show ?thesis using res h l w by simp
    next
      case False
      have res: "simplifyPath (Suc fuel) pts epsilon = Some [pts ! 0, pts ! ?e]"
        using \<open>\<not> length pts \<le> 2\<close> False fm by simp
      have "\<forall>i. 1 \<le> i \<and> i < ?e \<longrightarrow>
           perpendicularDistance (pts ! i) (pts ! 0) (pts ! ?e) \<le> epsilon"
        using props False by force
      then have "withinEpsilon epsilon pts [pts ! 0, pts ! ?e]"
        using len assms by (intro withinEpsilon_chord) simp_all
      then show ?thesis using res hd0 laste by simp
    qed
  qed
qed


lemma simplifyPath_short:
  "length pts \<le> 2 \<Longrightarrow> simplifyPath (Suc fuel) pts epsilon = Some pts"
  by simp

lemma simplifyPath_more_fuel:
  "simplifyPath fuel pts epsilon = Some r \<Longrightarrow> simplifyPath (Suc fuel) pts epsilon = Some r"
proof (induction fuel arbitrary: pts r)
  case 0
  then show ?case by simp
next
  case (Suc fuel)
  show ?case
  proof (cases "length pts \<le> 2")
    case True
    then show ?thesis using Suc.prems by simp
  next
    case False
    obtain maxDistance maxIndex where fm: "findMax pts = (maxDistance, maxIndex)"
      by (cases "findMax pts")
    show ?thesis
    proof (cases "maxDistance > epsilon")
      case True
      from Suc.prems False True fm obtain rl rr where
        rl: "simplifyPath fuel (take (maxIndex + 1) pts) epsilon = Some rl" and
        rr: "simplifyPath fuel (drop maxIndex pts) epsilon = Some rr" and
        r: "r = butlast rl @ rr"
        by (auto split: option.splits)
      from Suc.IH [OF rl] Suc.IH [OF rr] r False True fm show ?thesis
        by (simp del: simplifyPath.simps add: simplifyPath.simps(2) [of "Suc fuel"])
    next
      case False
      then show ?thesis using Suc.prems \<open>\<not> length pts \<le> 2\<close> fm by simp
    qed
  qed
qed

lemma findMax_collinear3: "findMax collinear3 = (0, 0)"
  by (simp add: findMax_def collinear3_def maxStep_def perpendicularDistance_def Let_def)

lemma simplifyPath_collinear3_negative: "simplifyPath fuel collinear3 (- 1) = None"
proof (induction fuel)
  case 0
  then show ?case by simp
next
  case (Suc fuel)
  have len: "\<not> length collinear3 \<le> 2" by (simp add: collinear3_def)
  have "drop 0 collinear3 = collinear3" by simp
  then show ?case using Suc len findMax_collinear3 by (simp split: option.splits)
qed

text \<open>
  With a negative \<open>epsilon\<close> the function need not return: on three collinear points the
  maximum distance is \<open>0\<close>, which exceeds \<open>epsilon\<close>, the index of the maximum is still \<open>0\<close>,
  and the right-hand call \<^verbatim>\<open>simplifyPath(points.slice(0), epsilon)\<close> is the call itself.
\<close>

theorem simplifyPath_negative_epsilon_counterexample:
  "\<not> (\<exists>fuel r. simplifyPath fuel [\<lparr>px = 0, py = 0\<rparr>, \<lparr>px = 1, py = 0\<rparr>, \<lparr>px = 2, py = 0\<rparr>] (- 1) = Some r)"
  using simplifyPath_collinear3_negative by (simp add: collinear3_def)

text \<open>
  Claim C5, for \<open>epsilon \<ge> 0\<close>. The function returns (a call depth of the number of points
  is enough); an input of at most two points is returned unchanged; and for an input of at
  least two points every original point is within \<open>epsilon\<close>, in perpendicular distance, of
  a segment of the result, which starts and ends where the input does.
\<close>

theorem simplifyPath_within_epsilon:
  assumes "0 \<le> epsilon" and "length pts \<le> fuel" and "0 < fuel"
  shows "\<exists>r. simplifyPath fuel pts epsilon = Some r \<and>
             (length pts \<le> 2 \<longrightarrow> r = pts) \<and>
             (2 \<le> length pts \<longrightarrow>
                withinEpsilon epsilon pts r \<and> hd r = hd pts \<and> last r = last pts)"
proof (cases "2 \<le> length pts")
  case True
  then obtain r where r: "simplifyPath fuel pts epsilon = Some r" "withinEpsilon epsilon pts r"
      "hd r = hd pts" "last r = last pts"
    using simplifyPath_sound [OF assms(1), of pts fuel] assms(2) by auto
  moreover have "length pts \<le> 2 \<longrightarrow> r = pts"
  proof
    assume "length pts \<le> 2"
    moreover obtain n where "fuel = Suc n" using assms(3) by (cases fuel) auto
    ultimately show "r = pts" using r(1) by simp
  qed
  ultimately show ?thesis by blast
next
  case False
  obtain n where "fuel = Suc n" using assms(3) by (cases fuel) auto
  then show ?thesis using False by simp
qed

theorem simplifyPath_within_epsilon_witness:
  "\<exists>r. simplifyPath 3 [\<lparr>px = 0, py = 0\<rparr>, \<lparr>px = 1, py = 1\<rparr>, \<lparr>px = 2, py = 0\<rparr>] 2 = Some r \<and>
       withinEpsilon 2 [\<lparr>px = 0, py = 0\<rparr>, \<lparr>px = 1, py = 1\<rparr>, \<lparr>px = 2, py = 0\<rparr>] r \<and>
       hd r = \<lparr>px = 0, py = 0\<rparr> \<and> last r = \<lparr>px = 2, py = 0\<rparr>"
  using simplifyPath_within_epsilon [of 2 "[\<lparr>px = 0, py = 0\<rparr>, \<lparr>px = 1, py = 1\<rparr>, \<lparr>px = 2, py = 0\<rparr>]" 3]
  by simp

section \<open>Properties of the symmetry replicator\<close>

lemma fold_addStrokeStep:
  "fold (addStrokeStep s) angles (layer, allPaths, fresh)
   = (layer @ replicas s fresh angles, allPaths @ replicas s fresh angles, fresh + 3 * length angles)"
  by (induction angles arbitrary: layer allPaths fresh) (simp_all add: addStrokeStep_def Let_def)

lemma length_replicas: "length (replicas s fresh angles) = 2 * length angles"
  by (induction angles arbitrary: fresh) simp_all

lemma addStroke_eq:
  "addStroke m s =
     \<lparr>snowflakeLayer = snowflakeLayer m @ replicas s (nextId m) ROTATION_ANGLES,
      strokePaths = AList.update (node_id (pathElement s)) (replicas s (nextId m) ROTATION_ANGLES)
                      (strokePaths m),
      nextId = nextId m + 18\<rparr>"
  by (simp add: addStroke_def fold_addStrokeStep) (simp add: ROTATION_ANGLES_def)

lemma length_replicas_12: "length (replicas s fresh ROTATION_ANGLES) = 12"
  by (simp add: length_replicas ROTATION_ANGLES_def)

lemma twelveEach_update:
  "twelveEach al \<Longrightarrow> length v = 12 \<Longrightarrow> twelveEach (AList.update k v al)"
  by (induction al) (auto simp: twelveEach_def)

lemma twelveEach_delete: "twelveEach al \<Longrightarrow> twelveEach (AList.delete k al)"
  by (induction al) (auto simp: twelveEach_def)

lemma twelveEach_count: "twelveEach al \<Longrightarrow> length (concat (map snd al)) = 12 * length al"
  by (induction al) (auto simp: twelveEach_def)

lemma twelveEach_addStroke: "twelveEach (strokePaths m) \<Longrightarrow> twelveEach (strokePaths (addStroke m s))"
  by (simp add: addStroke_eq twelveEach_update length_replicas_12)

lemma twelveEach_updateStroke:
  "twelveEach (strokePaths m) \<Longrightarrow> twelveEach (strokePaths (updateStroke m s))"
  by (auto simp: updateStroke_def Let_def split: option.splits intro!: twelveEach_addStroke)

lemma twelveEach_removeStroke:
  "twelveEach (strokePaths m) \<Longrightarrow> twelveEach (strokePaths (removeStroke m s))"
  by (auto simp: removeStroke_def twelveEach_delete split: option.splits)

lemma reachable_twelveEach: "reachable m \<Longrightarrow> twelveEach (strokePaths m)"
proof (induction rule: reachable.induct)
  case (new layerChildren fresh)
  show ?case by (simp add: newSymmetryManager_def twelveEach_def)
next
  case (add m s)
  from add.IH show ?case by (rule twelveEach_addStroke)
next
  case (update m s)
  from update.IH show ?case by (rule twelveEach_updateStroke)
next
  case (remove m s)
  from remove.IH show ?case by (rule twelveEach_removeStroke)
next
  case (clear m)
  show ?case by (simp add: clearAll_def twelveEach_def)
qed

lemma reachable_distinct_keys: "reachable m \<Longrightarrow> distinct (map fst (strokePaths m))"
proof (induction rule: reachable.induct)
  case (new layerChildren fresh)
  show ?case by (simp add: newSymmetryManager_def)
next
  case (add m s)
  then show ?case by (simp add: addStroke_eq distinct_update)
next
  case (update m s)
  then show ?case by (auto simp: updateStroke_def Let_def addStroke_eq distinct_update split: option.splits)
next
  case (remove m s)
  then show ?case by (auto simp: removeStroke_def distinct_delete split: option.splits)
next
  case (clear m)
  show ?case by (simp add: clearAll_def)
qed

lemma getAttribute_setAttribute: "getAttribute (setAttribute e name v) name = Some v"
  by (simp add: getAttribute_def setAttribute_def update_conv')

lemma getAttribute_cloneNode: "getAttribute (cloneNode fresh e) name = getAttribute e name"
  by (simp add: getAttribute_def cloneNode_def)

lemma numberToString_500: "numberToString 500 = ''500''"
  by code_simp

lemma numberToString_minus_1000: "numberToString (- 1000) = ''-1000''"
  by code_simp

lemma mirrorPath_transform:
  "getAttribute (mirrorPath fresh e) ''transform'' = Some mirrorString"
  by (simp add: mirrorPath_def mirrorString_def CENTER_def numberToString_minus_1000 Let_def
        getAttribute_setAttribute)

lemma cloneAndRotate_transform:
  "getAttribute (cloneAndRotate fresh e angle) ''transform'' =
     Some (case getAttribute e ''transform'' of
             None \<Rightarrow> rotateString angle
           | Some t \<Rightarrow> if t = [] then rotateString angle else rotateString angle @ '' '' @ t)"
  by (simp add: cloneAndRotate_def rotateString_def CENTER_def numberToString_500 Let_def
        getAttribute_setAttribute split: option.splits)

lemma mirrorString_nonempty: "mirrorString \<noteq> []"
  by (simp add: mirrorString_def)

lemma replicas_transforms:
  assumes "getAttribute (pathElement s) ''transform'' = None"
  shows "map (\<lambda>e. getAttribute e ''transform'') (replicas s fresh angles)
         = map Some (concat (map (\<lambda>angle. [rotateString angle, rotateString angle @ '' '' @ mirrorString]) angles))"
  using assms
  by (induction angles arbitrary: fresh)
     (simp_all add: cloneAndRotate_transform mirrorPath_transform mirrorString_nonempty)

lemma replicaTransforms_literal:
  "replicaTransforms =
     [''rotate(0 500 500)'', ''rotate(0 500 500) scale(-1, 1) translate(-1000, 0)'',
      ''rotate(60 500 500)'', ''rotate(60 500 500) scale(-1, 1) translate(-1000, 0)'',
      ''rotate(120 500 500)'', ''rotate(120 500 500) scale(-1, 1) translate(-1000, 0)'',
      ''rotate(180 500 500)'', ''rotate(180 500 500) scale(-1, 1) translate(-1000, 0)'',
      ''rotate(240 500 500)'', ''rotate(240 500 500) scale(-1, 1) translate(-1000, 0)'',
      ''rotate(300 500 500)'', ''rotate(300 500 500) scale(-1, 1) translate(-1000, 0)'']"
  by code_simp

lemma distinct_replicaTransforms: "distinct replicaTransforms"
  unfolding replicaTransforms_literal by simp

lemma getAttribute_setAttribute_other:
  "name' \<noteq> name \<Longrightarrow> getAttribute (setAttribute e name v) name' = getAttribute e name'"
  by (simp add: getAttribute_def setAttribute_def update_conv')

lemma replicas_d:
  "list_all (\<lambda>e. getAttribute e ''d'' = getAttribute (pathElement s) ''d'') (replicas s fresh angles)"
  by (induction angles arbitrary: fresh)
     (simp_all add: cloneAndRotate_def mirrorPath_def Let_def getAttribute_setAttribute_other
        getAttribute_cloneNode)

text \<open>
  Claim C2. In every reachable state the number of registered replicas is twelve times the
  number of registered strokes: every entry of \<^verbatim>\<open>strokePaths\<close> holds twelve replicas, under
  distinct keys. For a stroke whose path element carries no transform, \<^verbatim>\<open>addStroke\<close>
  registers twelve replicas whose transforms are the twelve of the specification, in
  order, all different, and every replica has the path data of the stroke.
\<close>

theorem replicator_twelve_per_stroke:
  assumes "reachable m"
  shows "replicaCount m = 12 * strokeCount m \<and>
         list_all (\<lambda>entry. length (snd entry) = 12) (strokePaths m) \<and>
         distinct (map fst (strokePaths m)) \<and>
         (\<forall>s. getAttribute (pathElement s) ''transform'' = None \<longrightarrow>
            (\<exists>reps. map_of (strokePaths (addStroke m s)) (node_id (pathElement s)) = Some reps \<and>
                length reps = 12 \<and>
                map (\<lambda>e. getAttribute e ''transform'') reps = map Some replicaTransforms \<and>
                distinct replicaTransforms \<and>
                list_all (\<lambda>e. getAttribute e ''d'' = getAttribute (pathElement s) ''d'') reps))"
proof -
  have t: "twelveEach (strokePaths m)" using assms by (rule reachable_twelveEach)
  have c: "replicaCount m = 12 * strokeCount m"
    using twelveEach_count [OF t] by (simp add: replicaCount_def strokeCount_def)
  have d: "distinct (map fst (strokePaths m))" using assms by (rule reachable_distinct_keys)
  have a: "\<exists>reps. map_of (strokePaths (addStroke m s)) (node_id (pathElement s)) = Some reps \<and>
                length reps = 12 \<and>
                map (\<lambda>e. getAttribute e ''transform'') reps = map Some replicaTransforms \<and>
                distinct replicaTransforms \<and>
                list_all (\<lambda>e. getAttribute e ''d'' = getAttribute (pathElement s) ''d'') reps"
    if "getAttribute (pathElement s) ''transform'' = None" for s
  proof -
    let ?reps = "replicas s (nextId m) ROTATION_ANGLES"
    have "map_of (strokePaths (addStroke m s)) (node_id (pathElement s)) = Some ?reps"
      by (simp add: addStroke_eq update_conv')
    moreover have "map (\<lambda>e. getAttribute e ''transform'') ?reps = map Some replicaTransforms"
      unfolding replicaTransforms_def ROTATION_ANGLES_def by (rule replicas_transforms [OF that])
    ultimately show ?thesis
      using length_replicas_12 distinct_replicaTransforms replicas_d by blast
  qed
  from c t d a show ?thesis unfolding twelveEach_def by blast
qed

theorem replicator_twelve_per_stroke_witness:
  "replicaCount (updateStroke (addStroke (newSymmetryManager [] 1) stroke0) stroke0)
     = 12 * strokeCount (updateStroke (addStroke (newSymmetryManager [] 1) stroke0) stroke0) \<and>
   strokeCount (updateStroke (addStroke (newSymmetryManager [] 1) stroke0) stroke0) = 1"
proof -
  have "reachable (updateStroke (addStroke (newSymmetryManager [] 1) stroke0) stroke0)"
    by (intro reachable.intros)
  from replicator_twelve_per_stroke [OF this]
  show ?thesis
    by (simp add: strokeCount_def updateStroke_def addStroke_eq newSymmetryManager_def Let_def
          update_conv')
qed

text \<open>
  Claim C10. For a stroke with no entry in \<^verbatim>\<open>strokePaths\<close>, \<^verbatim>\<open>updateStroke\<close> gives exactly
  the state that \<^verbatim>\<open>addStroke\<close> gives: the stroke is registered with twelve replicas, which
  are appended to the layer, and the entry of every other stroke is unchanged.
\<close>

theorem updateStroke_unregistered:
  assumes "map_of (strokePaths m) (node_id (pathElement s)) = None"
  shows "updateStroke m s = addStroke m s \<and>
         (\<exists>reps. map_of (strokePaths (updateStroke m s)) (node_id (pathElement s)) = Some reps \<and>
                length reps = 12 \<and>
                snowflakeLayer (updateStroke m s) = snowflakeLayer m @ reps) \<and>
         (\<forall>k. k \<noteq> node_id (pathElement s) \<longrightarrow>
              map_of (strokePaths (updateStroke m s)) k = map_of (strokePaths m) k)"
proof -
  have e: "updateStroke m s = addStroke m s" using assms by (simp add: updateStroke_def)
  show ?thesis unfolding e
    by (simp add: addStroke_eq update_conv' length_replicas_12)
qed

theorem updateStroke_unregistered_witness:
  "updateStroke (newSymmetryManager [] 1) stroke0 = addStroke (newSymmetryManager [] 1) stroke0 \<and>
   (\<exists>reps. map_of (strokePaths (updateStroke (newSymmetryManager [] 1) stroke0)) 0 = Some reps \<and>
          length reps = 12)"
proof -
  have h: "map_of (strokePaths (newSymmetryManager [] 1)) (node_id (pathElement stroke0)) = None"
    by (simp add: newSymmetryManager_def)
  have n: "node_id (pathElement stroke0) = 0" by (simp add: stroke0_def)
  from updateStroke_unregistered [OF h] show ?thesis unfolding n by blast
qed

text \<open>
  The layer is not part of the invariant: \<^verbatim>\<open>addStroke\<close> on a stroke that is already
  registered replaces its entry and leaves the twelve earlier replicas in the layer.
\<close>

lemma addStroke_twice_layer:
  "length (snowflakeLayer (addStroke (addStroke (newSymmetryManager [] fresh) s) s)) = 24 \<and>
   strokeCount (addStroke (addStroke (newSymmetryManager [] fresh) s) s) = 1"
  by (simp add: addStroke_eq newSymmetryManager_def strokeCount_def length_replicas_12)

section \<open>Properties of the transform baker\<close>

lemmas string_eval =
  isDigit_def isSpace_def isNumChar_def isCoordChar_def isSeparator_def isCommandLetter_def
  toUpperCase_def digitVal_def natOfDigits_def closesHere_def
  trim_def split_def parseCoords_def List.map_filter_def
  rotateAt_def pairAt_def rotateMatch_def scaleMatch_def translateMatch_def commandAt_def exec_def
  Let_def scanCommands.simps allPairs_def

lemmas bake_eval =
  transformPathData_def matchLoop.simps pairLoop.simps applyTransforms_def lift2_def
  parseFloat_def parseUnsigned_def toFixed2_def digits.simps digitChar_def string_eval

lemma getAttribute_removeAttribute:
  "getAttribute (removeAttribute e name) name' = (if name' = name then None else getAttribute e name')"
  by (simp add: getAttribute_def removeAttribute_def delete_conv')

lemma bakeTransform_transform_None:
  "getAttribute (bakeTransform fresh path) ''transform'' = None"
  by (simp add: bakeTransform_def Let_def getAttribute_removeAttribute split: option.splits)

text \<open>
  Claim C8. A path with no transform attribute, or with an empty one, is baked into a path
  with the same path data and no transform. Since a baked path has no transform, baking
  it again leaves its path data unchanged.
\<close>

theorem bakeTransform_no_transform:
  assumes "getAttribute path ''transform'' = None \<or> getAttribute path ''transform'' = Some []"
  shows "getAttribute (bakeTransform fresh path) ''d'' = getAttribute path ''d'' \<and>
         getAttribute (bakeTransform fresh path) ''transform'' = None \<and>
         getAttribute (bakeTransform fresh' (bakeTransform fresh path)) ''d''
           = getAttribute (bakeTransform fresh path) ''d''"
proof -
  have a: "getAttribute (bakeTransform f p) ''d'' = getAttribute p ''d''"
    if "getAttribute p ''transform'' = None \<or> getAttribute p ''transform'' = Some []" for f p
    using that
    by (auto simp: bakeTransform_def Let_def getAttribute_removeAttribute getAttribute_cloneNode)
  show ?thesis
    using a [OF assms] a [of "bakeTransform fresh path" fresh'] bakeTransform_transform_None
    by simp
qed

theorem bakeTransform_no_transform_witness:
  "getAttribute (bakeTransform 7 (pathElement stroke0)) ''d'' = Some ''M 550 450 L 600 480'' \<and>
   getAttribute (bakeTransform 7 (pathElement stroke0)) ''transform'' = None"
  using bakeTransform_no_transform [of "pathElement stroke0" 7 8]
  by (simp add: stroke0_def getAttribute_def)

lemma bake_rot0:
  "transformPathData ''M 550 450 L 600 480'' ''rotate(0 500 500)'' = ''M 550.00 450.00 L 600.00 480.00''"
  by (simp add: bake_eval)

lemma bake_rot0_mirror:
  "transformPathData ''M 550 450 L 600 480'' ''rotate(0 500 500) scale(-1, 1) translate(-1000, 0)''
   = ''M 450.00 450.00 L 400.00 480.00''"
  by (simp add: bake_eval)

lemma bake_mirror:
  "transformPathData ''M 550 450 L 600 480'' ''scale(-1, 1) translate(-1000, 0)''
   = ''M 450.00 450.00 L 400.00 480.00''"
  by (simp add: bake_eval)

lemma replicas_tagName:
  "list_all (\<lambda>e. tagName e = tagName (pathElement s)) (replicas s fresh angles)"
  by (induction angles arbitrary: fresh)
     (simp_all add: cloneAndRotate_def mirrorPath_def setAttribute_def cloneNode_def Let_def)

lemma getAllPaths_first_stroke:
  assumes "tagName (pathElement s) = ''path''"
  shows "getAllPaths (addStroke (newSymmetryManager [] fresh) s) = replicas s fresh ROTATION_ANGLES"
proof -
  have "filter (\<lambda>child. tagName child = ''path'') (replicas s fresh ROTATION_ANGLES)
        = replicas s fresh ROTATION_ANGLES"
    using replicas_tagName [of s fresh ROTATION_ANGLES] assms
    by (intro filter_True) (simp add: list_all_iff)
  then show ?thesis by (simp add: getAllPaths_def addStroke_eq newSymmetryManager_def)
qed

lemma generateBakedPaths_nth:
  "i < length (getAllPaths m) \<Longrightarrow>
   generateBakedPaths m ! i = bakeTransform (nextId m + i) (getAllPaths m ! i)"
  by (simp add: generateBakedPaths_def Let_def nth_enumerate_eq)

lemma length_generateBakedPaths: "length (generateBakedPaths m) = length (getAllPaths m)"
  by (simp add: generateBakedPaths_def Let_def)

lemma generateBakedPaths_no_transform:
  "list_all (\<lambda>e. getAttribute e ''transform'' = None) (generateBakedPaths m)"
  by (simp add: generateBakedPaths_def Let_def list_all_iff bakeTransform_transform_None split_beta)

lemma stroke0_replica0:
  "replicas stroke0 100 ROTATION_ANGLES ! 0 =
     \<lparr>node_id = 100, tagName = ''path'',
      attributes = [(''stroke-width'', ''2''), (''d'', ''M 550 450 L 600 480''),
                    (''transform'', ''rotate(0 500 500)'')]\<rparr>"
  by code_simp

lemma stroke0_replica1:
  "replicas stroke0 100 ROTATION_ANGLES ! 1 =
     \<lparr>node_id = 102, tagName = ''path'',
      attributes = [(''stroke-width'', ''2''), (''d'', ''M 550 450 L 600 480''),
                    (''transform'', ''rotate(0 500 500) scale(-1, 1) translate(-1000, 0)'')]\<rparr>"
  by code_simp

lemma allPairs_original: "allPairs ''M 550 450 L 600 480'' = [(550, 450), (600, 480)]"
  by (simp add: parseFloat_def parseUnsigned_def string_eval)

lemma allPairs_rot0: "allPairs ''M 550.00 450.00 L 600.00 480.00'' = [(550, 450), (600, 480)]"
  by (simp add: parseFloat_def parseUnsigned_def string_eval)

lemma allPairs_mirror: "allPairs ''M 450.00 450.00 L 400.00 480.00'' = [(450, 450), (400, 480)]"
  by (simp add: parseFloat_def parseUnsigned_def string_eval)

text \<open>
  Claim C3, the position of the two end points. Seen from the centre \<open>(500, 500)\<close> the
  point \<open>(550, 450)\<close> lies at 45 degrees and the point \<open>(600, 480)\<close> at about 79 degrees
  from the upward direction, so \<^verbatim>\<open>isPointInWedge\<close> rejects both, in either revision.
\<close>

theorem scenario_points_outside_wedge:
  "\<not> isPointInWedge \<lparr>px = 550, py = 450\<rparr> \<lparr>px = 500, py = 500\<rparr> \<and>
   \<not> isPointInWedge \<lparr>px = 600, py = 480\<rparr> \<lparr>px = 500, py = 500\<rparr> \<and>
   \<not> isPointInWedge_noRadius \<lparr>px = 550, py = 450\<rparr> \<lparr>px = 500, py = 500\<rparr> \<and>
   \<not> isPointInWedge_noRadius \<lparr>px = 600, py = 480\<rparr> \<lparr>px = 500, py = 500\<rparr>"
proof -
  have s: "1 < sqrt 3" by simp
  have a: "\<not> sqrt 3 * 50 \<le> 50" and b: "\<not> sqrt 3 * 100 \<le> 20" using s by linarith+
  have w: "\<not> isPointInWedge \<lparr>px = 550, py = 450\<rparr> \<lparr>px = 500, py = 500\<rparr>"
    "\<not> isPointInWedge \<lparr>px = 600, py = 480\<rparr> \<lparr>px = 500, py = 500\<rparr>"
    using a b by (simp_all add: isPointInWedge_iff)
  have n: "isPointInWedge_noRadius p c = isPointInWedge p c"
    if "(px p - px c) * (px p - px c) + (py p - py c) * (py p - py c) \<le> 400\<^sup>2" for p c
  proof -
    have "sqrt ((px p - px c) * (px p - px c) + (py p - py c) * (py p - py c)) \<le> sqrt (400\<^sup>2)"
      using that by (simp only: real_sqrt_le_iff)
    then have d: "(sqrt ((px p - px c) * (px p - px c) + (py p - py c) * (py p - py c)) > 400) = False"
      by simp
    show ?thesis
      by (simp only: isPointInWedge_def isPointInWedge_noRadius_def Let_def d if_False)
  qed
  have "\<not> isPointInWedge_noRadius \<lparr>px = 550, py = 450\<rparr> \<lparr>px = 500, py = 500\<rparr>"
    using w(1) by (subst n) simp_all
  moreover have "\<not> isPointInWedge_noRadius \<lparr>px = 600, py = 480\<rparr> \<lparr>px = 500, py = 500\<rparr>"
    using w(2) by (subst n) simp_all
  ultimately show ?thesis using w by simp
qed

text \<open>
  Claim C3, for the replicator and the baker. A path with the data of the straight stroke
  from \<open>(550, 450)\<close> to \<open>(600, 480)\<close>, registered in a new replicator, is baked into
  exactly twelve paths, none with a transform. The first, rotated by \<open>0\<close> degrees, has
  the coordinates of the original segment, printed with two decimals; the second,
  mirrored and rotated by \<open>0\<close> degrees, has the end points \<open>(450, 450)\<close> and
  \<open>(400, 480)\<close>.
\<close>

theorem line_stroke_baked:
  "length (generateBakedPaths (addStroke (newSymmetryManager [] 100) stroke0)) = 12 \<and>
   list_all (\<lambda>e. getAttribute e ''transform'' = None)
     (generateBakedPaths (addStroke (newSymmetryManager [] 100) stroke0)) \<and>
   getAttribute (generateBakedPaths (addStroke (newSymmetryManager [] 100) stroke0) ! 0) ''d''
     = Some ''M 550.00 450.00 L 600.00 480.00'' \<and>
   getAttribute (generateBakedPaths (addStroke (newSymmetryManager [] 100) stroke0) ! 1) ''d''
     = Some ''M 450.00 450.00 L 400.00 480.00'' \<and>
   allPairs ''M 550.00 450.00 L 600.00 480.00'' = allPairs ''M 550 450 L 600 480'' \<and>
   allPairs ''M 450.00 450.00 L 400.00 480.00'' = [(450, 450), (400, 480)]"
proof -
  let ?m = "addStroke (newSymmetryManager [] 100) stroke0"
  have tag: "tagName (pathElement stroke0) = ''path''" by (simp add: stroke0_def)
  have paths: "getAllPaths ?m = replicas stroke0 100 ROTATION_ANGLES"
    by (rule getAllPaths_first_stroke [OF tag])
  have len: "length (generateBakedPaths ?m) = 12"
    unfolding length_generateBakedPaths paths by (rule length_replicas_12)
  have l0: "0 < length (getAllPaths ?m)" and l1: "1 < length (getAllPaths ?m)"
    unfolding paths length_replicas_12 by simp_all
  have b0: "generateBakedPaths ?m ! 0 = bakeTransform (nextId ?m + 0) (replicas stroke0 100 ROTATION_ANGLES ! 0)"
    using generateBakedPaths_nth [OF l0] unfolding paths .
  have b1: "generateBakedPaths ?m ! 1 = bakeTransform (nextId ?m + 1) (replicas stroke0 100 ROTATION_ANGLES ! 1)"
    using generateBakedPaths_nth [OF l1] unfolding paths .
  have d0: "getAttribute (generateBakedPaths ?m ! 0) ''d'' = Some ''M 550.00 450.00 L 600.00 480.00''"
    unfolding b0 stroke0_replica0
    by (simp add: bakeTransform_def Let_def getAttribute_def setAttribute_def removeAttribute_def
          cloneNode_def bake_rot0)
  have d1: "getAttribute (generateBakedPaths ?m ! 1) ''d'' = Some ''M 450.00 450.00 L 400.00 480.00''"
    unfolding b1 stroke0_replica1
    by (simp add: bakeTransform_def Let_def getAttribute_def setAttribute_def removeAttribute_def
          cloneNode_def bake_rot0_mirror)
  show ?thesis
    using len d0 d1 generateBakedPaths_no_transform [of ?m]
    by (simp add: allPairs_original allPairs_rot0 allPairs_mirror)
qed

subsection \<open>The output, command by command\<close>

lemma pairsOf_drop:
  "i + 1 < length coords \<Longrightarrow>
   pairsOf (drop i coords) = (coords ! i, coords ! (i + 1)) # pairsOf (drop (i + 2) coords)"
proof -
  assume a: "i + 1 < length coords"
  then have "drop i coords = coords ! i # drop (Suc i) coords" by (simp add: Cons_nth_drop_Suc)
  also have "drop (Suc i) coords = coords ! (Suc i) # drop (Suc (Suc i)) coords"
    using a by (simp add: Cons_nth_drop_Suc)
  finally show ?thesis by simp
qed

lemma pairsOf_drop_last:
  "i < length coords \<Longrightarrow> length coords \<le> i + 1 \<Longrightarrow> pairsOf (drop i coords) = []"
proof -
  assume a: "i < length coords" "length coords \<le> i + 1"
  have "drop i coords = coords ! i # drop (Suc i) coords" using a(1) by (simp add: Cons_nth_drop_Suc)
  moreover have "drop (Suc i) coords = []" using a by simp
  ultimately show ?thesis by simp
qed

lemma pairLoop_render:
  "pairLoop ms coords i acc =
     acc @ (if i = 0 then renderPairs ms (pairsOf (drop i coords))
            else concat (map (\<lambda>q. '','' @ renderPair ms q) (pairsOf (drop i coords))))"
proof (induction ms coords i acc rule: pairLoop.induct)
  case (1 ms coords i acc)
  show ?case
  proof (cases "i < length coords")
    case False
    then have e: "pairsOf (drop i coords) = []" by simp
    show ?thesis unfolding e using False by (simp add: pairLoop.simps [of ms coords i] renderPairs_def)
  next
    case True
    show ?thesis
    proof (cases "i + 1 \<ge> length coords")
      case True
      with \<open>i < length coords\<close> have e: "pairsOf (drop i coords) = []"
        by (intro pairsOf_drop_last) simp_all
      show ?thesis unfolding e using True \<open>i < length coords\<close>
        by (simp add: pairLoop.simps [of ms coords i] renderPairs_def)
    next
      case False
      then have lt: "i + 1 < length coords" by simp
      obtain x y where xy: "applyTransforms ms (Some (coords ! i), Some (coords ! (i + 1))) = (x, y)"
        by (cases "applyTransforms ms (Some (coords ! i), Some (coords ! (i + 1)))")
      let ?acc1 = "(if i > 0 then acc @ '','' else acc)"
      let ?acc2 = "?acc1 @ '' '' @ toFixed2 x @ '' '' @ toFixed2 y"
      have step: "pairLoop ms coords i acc = pairLoop ms coords (i + 2) ?acc2"
        using True False xy by (simp add: pairLoop.simps [of ms coords i] Let_def)
      have ih: "pairLoop ms coords (i + 2) ?acc2 =
           ?acc2 @ concat (map (\<lambda>q. '','' @ renderPair ms q) (pairsOf (drop (i + 2) coords)))"
        using "1.IH" [OF True False xy [symmetric] refl refl refl] by simp
      have rp: "renderPair ms (coords ! i, coords ! (i + 1)) = '' '' @ toFixed2 x @ '' '' @ toFixed2 y"
        using xy by (simp add: renderPair_def)
      show ?thesis
        using rp unfolding step ih pairsOf_drop [OF lt]
        by (cases "i = 0") (simp_all add: renderPairs_def)
    qed
  qed
qed

lemma matchLoop_render:
  "matchLoop ms pathData acc = acc @ concat (map (bakedCommand ms) (scanCommands pathData))"
proof (induction ms pathData acc rule: matchLoop.induct)
  case (1 ms pathData acc)
  show ?case
  proof (cases "exec pathData")
    case None
    then show ?thesis by (simp add: matchLoop.simps [of ms pathData] scanCommands.simps [of pathData])
  next
    case (Some r)
    obtain m1 m2 rest where r: "r = (m1, m2, rest)" by (cases r)
    let ?acc = "pairLoop ms (parseCoords m2) 0 (acc @ [toUpperCase m1]) @ '' ''"
    have step: "matchLoop ms pathData acc = matchLoop ms rest ?acc"
      using Some r by (simp add: matchLoop.simps [of ms pathData] Let_def)
    have ih: "matchLoop ms rest ?acc = ?acc @ concat (map (bakedCommand ms) (scanCommands rest))"
      using "1.IH" [OF Some [unfolded r] refl refl refl refl refl refl refl] by simp
    have sc: "scanCommands pathData = (m1, m2) # scanCommands rest"
      using Some r by (simp add: scanCommands.simps [of pathData])
    have bc: "bakedCommand ms (m1, m2) = toUpperCase m1 # renderPairs ms (pairsOf (parseCoords m2)) @ '' ''"
      by (simp add: bakedCommand_def)
    show ?thesis unfolding step ih sc
      by (simp add: pairLoop_render bc)
  qed
qed

lemma transformPathData_render:
  "transformPathData pathData transform
   = trim (concat (map (bakedCommand (matchesOf transform)) (scanCommands pathData)))"
  by (simp add: transformPathData_def matchesOf_def Let_def matchLoop_render)

lemma scanCommands_Nil: "scanCommands [] = []"
  by (simp add: scanCommands.simps [of "[]"] exec_def commandAt_def)

lemma scanCommands_Cons:
  "scanCommands (c # s) =
     (case commandAt (c # s) of
        Some (l, g, rest) \<Rightarrow> (l, g) # scanCommands rest
      | None \<Rightarrow> scanCommands s)"
proof (cases "commandAt (c # s)")
  case None
  then have "exec (c # s) = exec s" by (simp add: exec_def)
  then have "scanCommands (c # s) = scanCommands s"
    by (simp add: scanCommands.simps [of "c # s"] scanCommands.simps [of s])
  with None show ?thesis by simp
next
  case (Some r)
  then have "exec (c # s) = Some r" by (simp add: exec_def)
  with Some show ?thesis by (simp add: scanCommands.simps [of "c # s"])
qed




lemma commandAt_rest_length:
  "commandAt (c # p) = Some (l, g, rest) \<Longrightarrow> length rest \<le> length p"
  by (auto simp: commandAt_def Let_def split: if_splits
           intro: length_dropWhile_le order_trans [OF length_dropWhile_le length_dropWhile_le])



lemma isDigit_digitChar: "d < 10 \<Longrightarrow> isDigit (digitChar d)"
  unfolding isDigit_def digitChar_def by (rule nth_mem) simp

lemma digits_all_digits: "list_all isDigit (digits n)"
proof (induction n rule: digits.induct)
  case (1 n)
  show ?case
  proof (cases "n < 10")
    case True
    then show ?thesis by (simp add: digits.simps [of n] isDigit_digitChar)
  next
    case False
    then show ?thesis using "1.IH" by (simp add: digits.simps [of n] isDigit_digitChar)
  qed
qed

lemma digits_nonempty: "digits n \<noteq> []"
  by (simp add: digits.simps [of n])


lemma isCoordChar_not_letter: "isCoordChar c \<Longrightarrow> \<not> isCommandLetter c"
  by (auto simp: isCoordChar_def isDigit_def isSpace_def isCommandLetter_def)





lemma isCommandLetter_toUpperCase: "isCommandLetter c \<Longrightarrow> isCommandLetter (toUpperCase c)"
  by (auto simp: isCommandLetter_def toUpperCase_def)

lemma commandAt_letter: "commandAt s = Some (l, g, rest) \<Longrightarrow> isCommandLetter l"
  by (cases s) (auto simp: commandAt_def Let_def split: if_splits)

lemma scanCommands_letters: "list_all (\<lambda>cmd. isCommandLetter (fst cmd)) (scanCommands s)"
proof (induction s rule: length_induct)
  case (1 s)
  show ?case
  proof (cases s)
    case Nil
    then show ?thesis by (simp add: scanCommands_Nil)
  next
    case (Cons c p)
    show ?thesis
    proof (cases "commandAt (c # p)")
      case None
      then show ?thesis using "1.IH" Cons by (simp add: scanCommands_Cons)
    next
      case (Some r)
      obtain l g rest where r: "r = (l, g, rest)" by (cases r)
      have "length rest < length s" using commandAt_rest_length [OF Some [unfolded r]] Cons by simp
      then have "list_all (\<lambda>cmd. isCommandLetter (fst cmd)) (scanCommands rest)" using "1.IH" by simp
      then show ?thesis using Some r Cons commandAt_letter [OF Some [unfolded r]]
        by (simp add: scanCommands_Cons)
    qed
  qed
qed






















text \<open>
  Every transform that the replicator writes has groups that are numbers, so it meets the
  first three premises above.
\<close>

lemma numbers_present:
  "(\<exists>r. map_option f m = map_option Some r) \<longleftrightarrow> map_option f m \<noteq> Some None"
proof
  assume "\<exists>r. map_option f m = map_option Some r"
  then obtain r where "map_option f m = map_option Some r" by blast
  then show "map_option f m \<noteq> Some None" by (cases r) auto
next
  assume a: "map_option f m \<noteq> Some None"
  show "\<exists>r. map_option f m = map_option Some r"
  proof (cases "map_option f m")
    case None
    then have "map_option f m = map_option Some None" by simp
    then show ?thesis by blast
  next
    case (Some v)
    with a obtain x where "v = Some x" by (cases v) auto
    with Some have "map_option f m = map_option Some (Some x)" by simp
    then show ?thesis by blast
  qed
qed

lemma replicaTransforms_numbers:
  "list_all (\<lambda>t. map_option readTriple (rotateMatch t) \<noteq> Some None \<and>
                  map_option readPair (scaleMatch t) \<noteq> Some None \<and>
                  map_option readPair (translateMatch t) \<noteq> Some None) replicaTransforms"
  unfolding replicaTransforms_literal
  by (simp add: readTriple_def readPair_def parseFloat_def parseUnsigned_def string_eval)

subsection \<open>Mirroring twice\<close>

text \<open>
  Claim C7, as stated. \<^verbatim>\<open>mirrorPath\<close> sets the transform attribute, so the mirror of a
  mirror carries one mirror transform; and from a transform string with the mirror
  transform written twice the baker reads the first \<^verbatim>\<open>scale\<close> and the first
  \<^verbatim>\<open>translate\<close> only. Either way the segment from \<open>(550, 450)\<close> to \<open>(600, 480)\<close> is
  baked into the segment from \<open>(450, 450)\<close> to \<open>(400, 480)\<close>.
\<close>

theorem mirror_twice_counterexample:
  "\<not> coordinatesWithin (1 / 100)
       (allPairs (the (getAttribute (bakeTransform 3 (mirrorPath 2 (mirrorPath 1 (pathElement stroke0)))) ''d'')))
       (allPairs (the (getAttribute (pathElement stroke0) ''d''))) \<and>
   \<not> coordinatesWithin (1 / 100)
       (allPairs (transformPathData ''M 550 450 L 600 480''
          ''scale(-1, 1) translate(-1000, 0) scale(-1, 1) translate(-1000, 0)''))
       (allPairs ''M 550 450 L 600 480'')"
proof -
  have m: "mirrorPath 2 (mirrorPath 1 (pathElement stroke0)) =
     \<lparr>node_id = 2, tagName = ''path'',
      attributes = [(''stroke-width'', ''2''), (''d'', ''M 550 450 L 600 480''),
                    (''transform'', ''scale(-1, 1) translate(-1000, 0)'')]\<rparr>"
    by code_simp
  have d: "getAttribute (bakeTransform 3 (mirrorPath 2 (mirrorPath 1 (pathElement stroke0)))) ''d''
           = Some ''M 450.00 450.00 L 400.00 480.00''"
    unfolding m
    by (simp add: bakeTransform_def Let_def getAttribute_def setAttribute_def removeAttribute_def
          cloneNode_def bake_mirror)
  have t: "transformPathData ''M 550 450 L 600 480''
          ''scale(-1, 1) translate(-1000, 0) scale(-1, 1) translate(-1000, 0)''
          = ''M 450.00 450.00 L 400.00 480.00''"
    by (simp add: bake_eval)
  have o: "getAttribute (pathElement stroke0) ''d'' = Some ''M 550 450 L 600 480''"
    by (simp add: stroke0_def getAttribute_def)
  show ?thesis
    unfolding d t o by (simp add: allPairs_original allPairs_mirror coordinatesWithin_def)
qed


subsection \<open>Reading the output back\<close>

text \<open>
  The text that the baker writes for a total transform is read back by the baker as the
  transformed coordinate pairs, rounded to two decimals: \<^verbatim>\<open>parseFloat\<close> inverts
  \<^verbatim>\<open>toFixed(2)\<close> up to rounding, \<^verbatim>\<open>split\<close> recovers the printed coordinates, and the command
  expression finds the commands of the output where they were written.
\<close>

lemma digitVal_digitChar: "d < 10 \<Longrightarrow> digitVal (digitChar d) = d"
proof -
  assume "d < 10"
  then have "d = 0 \<or> d = 1 \<or> d = 2 \<or> d = 3 \<or> d = 4 \<or> d = 5 \<or> d = 6 \<or> d = 7 \<or> d = 8 \<or> d = 9"
    by arith
  then show ?thesis by (elim disjE) (simp_all add: digitChar_def digitVal_def)
qed

lemma natOfDigits_snoc: "natOfDigits (ds @ [c]) = 10 * natOfDigits ds + digitVal c"
  by (simp add: natOfDigits_def)

lemma natOfDigits_digits: "natOfDigits (digits n) = n"
proof (induction n rule: digits.induct)
  case (1 n)
  show ?case
  proof (cases "n < 10")
    case True
    then show ?thesis by (simp add: digits.simps [of n] natOfDigits_def digitVal_digitChar)
  next
    case False
    then have "natOfDigits (digits n) = 10 * natOfDigits (digits (n div 10)) + digitVal (digitChar (n mod 10))"
      by (simp add: digits.simps [of n] natOfDigits_snoc)
    also have "\<dots> = 10 * (n div 10) + n mod 10" using "1.IH" [OF False] by (simp add: digitVal_digitChar)
    finally show ?thesis by simp
  qed
qed

lemma takeWhile_digits: "takeWhile isDigit (digits n @ CHR ''.'' # r) = digits n"
proof -
  have "\<not> isDigit CHR ''.''" by (simp add: isDigit_def)
  moreover have "\<forall>c \<in> set (digits n). isDigit c" using digits_all_digits [of n] by (simp add: list_all_iff)
  ultimately show ?thesis by (simp add: takeWhile_append2)
qed

lemma dropWhile_digits: "dropWhile isDigit (digits n @ CHR ''.'' # r) = CHR ''.'' # r"
proof -
  have "\<not> isDigit CHR ''.''" by (simp add: isDigit_def)
  moreover have "\<forall>c \<in> set (digits n). isDigit c" using digits_all_digits [of n] by (simp add: list_all_iff)
  ultimately show ?thesis by (simp add: dropWhile_append2)
qed

lemma hd_digits: "\<exists>c cs. digits n = c # cs \<and> isDigit c"
  using digits_all_digits [of n] digits_nonempty [of n] by (cases "digits n") simp_all

lemma isDigit_not_minus: "isDigit c \<Longrightarrow> c \<noteq> CHR ''-''"
  by (auto simp: isDigit_def)

lemma parseUnsigned_digits:
  assumes "d1 < 10" "d2 < 10"
  shows "parseUnsigned (digits q @ CHR ''.'' # [digitChar d1, digitChar d2])
         = Some (real q + real (10 * d1 + d2) / 100)"
proof -
  have tw: "takeWhile isDigit [digitChar d1, digitChar d2] = [digitChar d1, digitChar d2]"
    using assms by (simp add: isDigit_digitChar)
  show ?thesis
    unfolding parseUnsigned_def Let_def takeWhile_digits dropWhile_digits
    using assms tw digits_nonempty [of q]
    by (simp add: natOfDigits_digits) (simp add: natOfDigits_def digitVal_digitChar)
qed

lemma two_digits: "10 * (n mod 100 div 10) + n mod 10 = (n::nat) mod 100"
proof -
  have "(n mod 100) mod 10 = n mod 10" by (rule mod_mod_cancel) simp
  moreover have "10 * (n mod 100 div 10) + (n mod 100) mod 10 = n mod 100" by (rule mult_div_mod_eq)
  ultimately show ?thesis by simp
qed

lemma hundredths: "real (n div 100) + real (10 * (n mod 100 div 10) + n mod 10) / 100 = real n / 100"
proof -
  have "100 * (n div 100) + n mod 100 = n" by (rule mult_div_mod_eq)
  then have "real (100 * (n div 100) + n mod 100) = real n" by (rule arg_cong)
  then have "100 * real (n div 100) + real (n mod 100) = real n"
    by (simp only: of_nat_add of_nat_mult of_nat_numeral)
  then have "real n / 100 = real (n div 100) + real (n mod 100) / 100" by (simp add: field_simps)
  then show ?thesis unfolding two_digits by simp
qed

lemma toFixed2_Some:
  "toFixed2 (Some v) =
     (if v < 0 then ''-'' else [])
     @ digits (nat \<lfloor>\<bar>v\<bar> * 100 + 1 / 2\<rfloor> div 100) @ CHR ''.'' #
       [digitChar (nat \<lfloor>\<bar>v\<bar> * 100 + 1 / 2\<rfloor> mod 100 div 10),
        digitChar (nat \<lfloor>\<bar>v\<bar> * 100 + 1 / 2\<rfloor> mod 10)]"
  by (simp only: toFixed2_def Let_def option.case append.simps)

lemma parseFloat_toFixed2: "parseFloat (toFixed2 (Some v)) = Some (round2 v)"
proof -
  define n where "n = nat \<lfloor>\<bar>v\<bar> * 100 + 1 / 2\<rfloor>"
  define body where "body = digits (n div 100) @ CHR ''.'' # [digitChar (n mod 100 div 10), digitChar (n mod 10)]"
  have "parseUnsigned body = Some (real (n div 100) + real (10 * (n mod 100 div 10) + n mod 10) / 100)"
    unfolding body_def by (rule parseUnsigned_digits) simp_all
  then have val: "parseUnsigned body = Some (real n / 100)" unfolding hundredths .
  obtain c cs where c: "digits (n div 100) = c # cs" "isDigit c" using hd_digits by blast
  have nm: "c \<noteq> CHR ''-''" using c(2) by (rule isDigit_not_minus)
  have bc: "body = c # cs @ CHR ''.'' # [digitChar (n mod 100 div 10), digitChar (n mod 10)]"
    unfolding body_def c(1) by simp
  have un: "parseFloat body = parseUnsigned body" unfolding bc using nm by (simp add: parseFloat_def)
  have mi: "parseFloat (CHR ''-'' # body) = map_option uminus (parseUnsigned body)"
    by (simp add: parseFloat_def)
  have r: "round2 v = (if v < 0 then - (real n / 100) else real n / 100)"
    unfolding round2_def n_def by simp
  have tf: "toFixed2 (Some v) = (if v < 0 then CHR ''-'' # body else body)"
    unfolding toFixed2_Some body_def n_def by simp
  show ?thesis unfolding tf r using un mi val by simp
qed

lemma toFixed2_chars: "list_all isNumChar (toFixed2 (Some v))"
proof -
  have d: "list_all isNumChar (digits n)" for n
    using digits_all_digits [of n] by (simp add: list_all_iff isNumChar_def)
  have c: "isNumChar (digitChar k)" if "k < 10" for k
    using isDigit_digitChar [OF that] by (simp add: isNumChar_def)
  show ?thesis
    unfolding toFixed2_Some by (simp add: d c) (simp add: isNumChar_def)
qed

lemma toFixed2_nonempty: "toFixed2 (Some v) \<noteq> []"
  unfolding toFixed2_Some by simp

lemma isNumChar_props:
  "isNumChar c \<Longrightarrow> \<not> isSeparator c"
  "isNumChar c \<Longrightarrow> \<not> isSpace c"
  "isNumChar c \<Longrightarrow> isCoordChar c"
  by (auto simp: isNumChar_def isSeparator_def isSpace_def isCoordChar_def isDigit_def)

lemma splitAux_token:
  "list_all (\<lambda>c. \<not> isSeparator c) tok \<Longrightarrow> splitAux cur (tok @ r) = splitAux (cur @ tok) r"
  by (induction tok arbitrary: cur) simp_all

lemma dropWhile_token:
  "tok \<noteq> [] \<Longrightarrow> list_all (\<lambda>c. \<not> P c) tok \<Longrightarrow> dropWhile P (tok @ r) = tok @ r"
  by (cases tok) simp_all

lemma isToken_toFixed2: "isToken (toFixed2 (Some v))"
  by (simp add: isToken_def toFixed2_chars toFixed2_nonempty)

lemma isToken_nosep: "isToken tok \<Longrightarrow> list_all (\<lambda>c. \<not> isSeparator c) tok"
  by (auto simp: isToken_def list_all_iff isNumChar_props)

lemma isToken_nospace: "isToken tok \<Longrightarrow> list_all (\<lambda>c. \<not> isSpace c) tok"
  by (auto simp: isToken_def list_all_iff isNumChar_props)

lemma isToken_coord: "isToken tok \<Longrightarrow> list_all isCoordChar tok"
  by (auto simp: isToken_def list_all_iff isNumChar_props)

text \<open>pair text: space, token, space, token\<close>

lemma split_space_token:
  assumes "isToken t"
  shows "splitAux cur (CHR '' '' # t @ r) = cur # splitAux t r"
proof -
  have sep: "isSeparator CHR '' ''" by (simp add: isSeparator_def isSpace_def)
  have "splitAux cur (CHR '' '' # t @ r) = cur # splitAux [] (dropWhile isSeparator (t @ r))"
    using sep by simp
  also have "dropWhile isSeparator (t @ r) = t @ r"
    using assms isToken_nosep [OF assms] by (intro dropWhile_token) (simp_all add: isToken_def)
  also have "splitAux [] (t @ r) = splitAux t r"
    using splitAux_token [OF isToken_nosep [OF assms], of "[]" r] by simp
  finally show ?thesis .
qed

lemma split_comma_space_token:
  assumes "isToken t"
  shows "splitAux cur (CHR '','' # CHR '' '' # t @ r) = cur # splitAux t r"
proof -
  have sep: "isSeparator CHR '' ''" "isSeparator CHR '',''" by (simp_all add: isSeparator_def isSpace_def)
  have "splitAux cur (CHR '','' # CHR '' '' # t @ r) = cur # splitAux [] (dropWhile isSeparator (t @ r))"
    using sep by simp
  also have "dropWhile isSeparator (t @ r) = t @ r"
    using assms isToken_nosep [OF assms] by (intro dropWhile_token) (simp_all add: isToken_def)
  also have "splitAux [] (t @ r) = splitAux t r"
    using splitAux_token [OF isToken_nosep [OF assms], of "[]" r] by simp
  finally show ?thesis .
qed

lemma renderPair_tokens:
  assumes "total ms"
  shows "renderPair ms p = CHR '' '' # tokenX ms p @ CHR '' '' # tokenY ms p"
proof -
  obtain a b where ab: "applyTransforms ms (Some (fst p), Some (snd p)) = (Some a, Some b)"
    using assms unfolding total_def
    by (metis option.exhaust prod.collapse)
  show ?thesis by (simp add: renderPair_def tokenX_def tokenY_def transformed_def ab)
qed

lemma isToken_tokens: "isToken (tokenX ms p)" "isToken (tokenY ms p)"
  by (simp_all add: tokenX_def tokenY_def isToken_toFixed2)

lemma restText_Cons:
  assumes "total ms"
  shows "restText ms (q # ps) =
     CHR '','' # CHR '' '' # tokenX ms q @ CHR '' '' # tokenY ms q @ restText ms ps"
  by (simp add: restText_def renderPair_tokens [OF assms])

lemma splitAux_restText:
  assumes "total ms"
  shows "splitAux cur (restText ms ps) = cur # tokens ms ps"
proof (induction ps arbitrary: cur)
  case Nil
  show ?case by (simp add: restText_def tokens_def)
next
  case (Cons q ps)
  have "splitAux cur (restText ms (q # ps))
        = cur # splitAux (tokenX ms q) (CHR '' '' # tokenY ms q @ restText ms ps)"
    unfolding restText_Cons [OF assms] by (rule split_comma_space_token [OF isToken_tokens(1)])
  also have "splitAux (tokenX ms q) (CHR '' '' # tokenY ms q @ restText ms ps)
        = tokenX ms q # splitAux (tokenY ms q) (restText ms ps)"
    by (rule split_space_token [OF isToken_tokens(2)])
  also have "splitAux (tokenY ms q) (restText ms ps) = tokenY ms q # tokens ms ps" by (rule Cons.IH)
  finally show ?case by (simp add: tokens_def)
qed

lemma renderPairs_body:
  assumes "total ms"
  shows "renderPairs ms ps = (case ps of [] \<Rightarrow> [] | _ # _ \<Rightarrow> CHR '' '' # bodyText ms ps)"
  by (cases ps) (simp_all add: renderPairs_def bodyText_def restText_def renderPair_tokens [OF assms])

lemma split_bodyText:
  assumes "total ms" "ps \<noteq> []"
  shows "split (bodyText ms ps) = tokens ms ps"
proof -
  obtain p rest where ps: "ps = p # rest" using assms(2) by (cases ps) auto
  have "splitAux [] (tokenX ms p @ CHR '' '' # tokenY ms p @ restText ms rest)
        = splitAux (tokenX ms p) (CHR '' '' # tokenY ms p @ restText ms rest)"
    by (simp add: splitAux_token [OF isToken_nosep [OF isToken_tokens(1)]])
  also have "\<dots> = tokenX ms p # splitAux (tokenY ms p) (restText ms rest)"
    by (rule split_space_token [OF isToken_tokens(2)])
  also have "\<dots> = tokenX ms p # tokenY ms p # tokens ms rest"
    by (simp add: splitAux_restText [OF assms(1)])
  finally show ?thesis by (simp add: split_def bodyText_def ps tokens_def)
qed

lemma parse_tokens:
  "List.map_filter parseFloat (tokens ms ps)
   = concat (map (\<lambda>q. [round2 (fst (transformed ms q)), round2 (snd (transformed ms q))]) ps)"
  by (induction ps)
     (simp_all add: tokens_def List.map_filter_def tokenX_def tokenY_def parseFloat_toFixed2)

lemma pairsOf_flat: "pairsOf (concat (map (\<lambda>q. [f q, g q]) ps)) = map (\<lambda>q. (f q, g q)) ps"
  by (induction ps) simp_all

lemma trim_plain:
  assumes "s \<noteq> []" "\<not> isSpace (hd s)" "\<not> isSpace (last s)"
  shows "trim s = s"
proof -
  have a: "dropWhile isSpace s = s" using assms(1,2) by (cases s) simp_all
  have "rev s \<noteq> []" "\<not> isSpace (hd (rev s))" using assms(1,3) by (simp_all add: hd_rev)
  then have b: "dropWhile isSpace (rev s) = rev s" by (cases "rev s") simp_all
  show ?thesis by (simp add: trim_def a b)
qed

lemma trim_space:
  assumes "s \<noteq> []" "\<not> isSpace (hd s)" "\<not> isSpace (last s)"
  shows "trim (s @ '' '') = s"
proof -
  have sp: "isSpace CHR '' ''" by (simp add: isSpace_def)
  have a: "dropWhile isSpace (s @ '' '') = s @ '' ''" using assms(1,2) by (cases s) simp_all
  have "rev s \<noteq> []" "\<not> isSpace (hd (rev s))" using assms(1,3) by (simp_all add: hd_rev)
  then have b: "dropWhile isSpace (rev s) = rev s" by (cases "rev s") simp_all
  show ?thesis by (simp add: trim_def a b sp)
qed

lemma token_hd_last:
  assumes "isToken t"
  shows "\<not> isSpace (hd t)" "\<not> isSpace (last t)"
proof -
  have ne: "t \<noteq> []" using assms by (simp add: isToken_def)
  have "hd t \<in> set t" "last t \<in> set t" using ne by simp_all
  then show "\<not> isSpace (hd t)" "\<not> isSpace (last t)"
    using isToken_nospace [OF assms] by (simp_all add: list_all_iff)
qed

lemma last_token_restText:
  assumes "total ms"
  shows "isToken t \<Longrightarrow> \<not> isSpace (last (t @ restText ms ps))"
proof (induction ps arbitrary: t)
  case Nil
  then show ?case by (simp add: restText_def token_hd_last)
next
  case (Cons q ps)
  have ne: "tokenY ms q @ restText ms ps \<noteq> []" using isToken_tokens(2) [of ms q] by (simp add: isToken_def)
  have "t @ restText ms (q # ps)
        = (t @ CHR '','' # CHR '' '' # tokenX ms q @ '' '') @ (tokenY ms q @ restText ms ps)"
    by (simp add: restText_Cons [OF assms])
  then have "last (t @ restText ms (q # ps)) = last (tokenY ms q @ restText ms ps)"
    by (simp only: last_appendR [OF ne])
  then show ?case using Cons.IH [OF isToken_tokens(2)] by simp
qed

lemma bodyText_shape:
  assumes "total ms" "ps \<noteq> []"
  shows "bodyText ms ps \<noteq> []" "\<not> isSpace (hd (bodyText ms ps))" "\<not> isSpace (last (bodyText ms ps))"
proof -
  obtain p rest where ps: "ps = p # rest" using assms(2) by (cases ps) auto
  have x: "tokenX ms p \<noteq> []" using isToken_tokens(1) [of ms p] by (simp add: isToken_def)
  show "bodyText ms ps \<noteq> []" using x by (simp add: bodyText_def ps)
  show "\<not> isSpace (hd (bodyText ms ps))"
    using x token_hd_last(1) [OF isToken_tokens(1), of ms p] by (simp add: bodyText_def ps)
  have y: "tokenY ms p @ restText ms rest \<noteq> []"
    using isToken_tokens(2) [of ms p] by (simp add: isToken_def)
  have "bodyText ms ps = (tokenX ms p @ '' '') @ (tokenY ms p @ restText ms rest)"
    by (simp add: bodyText_def ps)
  then have "last (bodyText ms ps) = last (tokenY ms p @ restText ms rest)"
    by (simp only: last_appendR [OF y])
  then show "\<not> isSpace (last (bodyText ms ps))"
    using last_token_restText [OF assms(1) isToken_tokens(2)] by simp
qed

lemma restText_coord:
  assumes "total ms"
  shows "list_all isCoordChar (restText ms ps)"
proof -
  have c: "isCoordChar CHR '',''" "isCoordChar CHR '' ''" by (simp_all add: isCoordChar_def isSpace_def)
  show ?thesis
    by (induction ps)
       (simp_all add: restText_Cons [OF assms] c isToken_coord [OF isToken_tokens(1)]
          isToken_coord [OF isToken_tokens(2)], simp add: restText_def)
qed

lemma bodyText_coord:
  assumes "total ms"
  shows "list_all isCoordChar (bodyText ms ps)"
proof -
  have c: "isCoordChar CHR '' ''" by (simp add: isCoordChar_def isSpace_def)
  show ?thesis
    by (cases ps)
       (simp_all add: bodyText_def c isToken_coord [OF isToken_tokens(1)]
          isToken_coord [OF isToken_tokens(2)] restText_coord [OF assms])
qed

lemma pairs_bodyText:
  assumes "total ms" "ps \<noteq> []"
  shows "pairsOf (parseCoords (bodyText ms ps)) = map (rounded ms) ps"
    and "pairsOf (parseCoords (bodyText ms ps @ '' '')) = map (rounded ms) ps"
proof -
  note sh = bodyText_shape [OF assms]
  have t1: "trim (bodyText ms ps) = bodyText ms ps" by (rule trim_plain [OF sh])
  have t2: "trim (bodyText ms ps @ '' '') = bodyText ms ps" by (rule trim_space [OF sh])
  have p: "pairsOf (List.map_filter parseFloat (split (bodyText ms ps))) = map (rounded ms) ps"
    unfolding split_bodyText [OF assms] parse_tokens pairsOf_flat rounded_def ..
  show "pairsOf (parseCoords (bodyText ms ps)) = map (rounded ms) ps"
    unfolding parseCoords_def t1 by (rule p)
  show "pairsOf (parseCoords (bodyText ms ps @ '' '')) = map (rounded ms) ps"
    unfolding parseCoords_def t2 by (rule p)
qed

lemma parseCoords_space: "parseCoords '' '' = []"
  by (simp add: parseFloat_def parseUnsigned_def string_eval)

lemma while_stop_head:
  assumes "tail = [] \<or> \<not> P (hd tail)"
  shows "takeWhile P tail = []" "dropWhile P tail = tail"
  using assms by (cases tail; simp)+

lemma isSpace_isCoordChar: "isSpace c \<Longrightarrow> isCoordChar c"
  by (simp add: isCoordChar_def)

lemma commandAt_baked:
  assumes t: "total ms" and l: "isCommandLetter l"
    and tail: "tail = [] \<or> \<not> isCoordChar (hd tail)"
  shows "\<exists>g. commandAt (bakedCommand ms (l, g0) @ tail) = Some (toUpperCase l, g, tail) \<and>
             pairsOf (parseCoords g) = map (rounded ms) (pairsOf (parseCoords g0))"
proof -
  let ?ps = "pairsOf (parseCoords g0)"
  have u: "isCommandLetter (toUpperCase l)" by (rule isCommandLetter_toUpperCase [OF l])
  have sp: "isSpace CHR '' ''" by (simp add: isSpace_def)
  have co: "isCoordChar CHR '' ''" by (rule isSpace_isCoordChar [OF sp])
  have tail': "tail = [] \<or> \<not> isSpace (hd tail)" using tail isSpace_isCoordChar by blast
  note ws = while_stop_head [of tail isSpace, OF tail']
  note cs = while_stop_head [of tail isCoordChar, OF tail]
  show ?thesis
  proof (cases "?ps = []")
    case True
    have b: "bakedCommand ms (l, g0) @ tail = toUpperCase l # CHR '' '' # tail"
      by (simp add: bakedCommand_def True renderPairs_def)
    have "commandAt (toUpperCase l # CHR '' '' # tail) = Some (toUpperCase l, '' '', tail)"
      by (simp add: commandAt_def u sp ws cs Let_def)
    then show ?thesis unfolding b using True by (simp add: parseCoords_space)
  next
    case False
    note sh = bodyText_shape [OF t False]
    obtain p rest where ps: "?ps = p # rest" using False by (cases ?ps) auto
    have r: "renderPairs ms ?ps = CHR '' '' # bodyText ms ?ps"
      unfolding renderPairs_body [OF t] ps by simp
    have b: "bakedCommand ms (l, g0) @ tail
             = toUpperCase l # CHR '' '' # bodyText ms ?ps @ CHR '' '' # tail"
      by (simp add: bakedCommand_def r)
    obtain h hs where body: "bodyText ms ?ps = h # hs" using sh(1) by (cases "bodyText ms ?ps") auto
    have h: "\<not> isSpace h" using sh(2) by (simp add: body)
    have all: "\<And>x. x \<in> set (bodyText ms ?ps) \<Longrightarrow> isCoordChar x"
      using bodyText_coord [OF t, of ?ps] by (simp add: list_all_iff)
    have tk: "takeWhile isCoordChar (bodyText ms ?ps @ CHR '' '' # tail) = bodyText ms ?ps @ '' ''"
      using all by (simp add: takeWhile_append2 co cs)
    have dr: "dropWhile isCoordChar (bodyText ms ?ps @ CHR '' '' # tail) = tail"
      using all by (simp add: dropWhile_append2 co cs)
    have "commandAt (toUpperCase l # CHR '' '' # h # hs @ CHR '' '' # tail)
          = Some (toUpperCase l, bodyText ms ?ps @ '' '', tail)"
      using tk dr sh(1) by (simp add: commandAt_def u sp h Let_def body)
    then have "commandAt (bakedCommand ms (l, g0) @ tail)
          = Some (toUpperCase l, bodyText ms ?ps @ '' '', tail)"
      unfolding b body by simp
    then show ?thesis using pairs_bodyText(2) [OF t False] by blast
  qed
qed

lemma allPairs_Nil: "allPairs [] = []"
  by (simp add: allPairs_def scanCommands_Nil)

lemma allPairs_baked_tail:
  assumes t: "total ms" and l: "isCommandLetter (fst cmd)"
    and tail: "tail = [] \<or> \<not> isCoordChar (hd tail)"
  shows "allPairs (bakedCommand ms cmd @ tail)
         = map (rounded ms) (pairsOf (parseCoords (snd cmd))) @ allPairs tail"
proof -
  obtain g where g: "commandAt (bakedCommand ms (fst cmd, snd cmd) @ tail) = Some (toUpperCase (fst cmd), g, tail)"
    "pairsOf (parseCoords g) = map (rounded ms) (pairsOf (parseCoords (snd cmd)))"
    using commandAt_baked [OF t l tail] by blast
  have b: "bakedCommand ms cmd @ tail
           = toUpperCase (fst cmd) # (renderPairs ms (pairsOf (parseCoords (snd cmd))) @ '' '' @ tail)"
    by (simp add: bakedCommand_def)
  have "scanCommands (bakedCommand ms cmd @ tail) = (toUpperCase (fst cmd), g) # scanCommands tail"
    using g(1) unfolding b by (simp add: scanCommands_Cons bakedCommand_def)
  then show ?thesis by (simp add: allPairs_def g(2))
qed

lemma letter_not_coord: "isCommandLetter c \<Longrightarrow> \<not> isCoordChar c"
  using isCoordChar_not_letter by blast

lemma letter_not_space: "isCommandLetter c \<Longrightarrow> \<not> isSpace c"
  using isCoordChar_not_letter isSpace_isCoordChar by blast

lemma allPairs_open:
  assumes t: "total ms" and l: "isCommandLetter l"
  shows "allPairs (toUpperCase l # renderPairs ms ps) = map (rounded ms) ps"
proof (cases "ps = []")
  case True
  have u: "isCommandLetter (toUpperCase l)" by (rule isCommandLetter_toUpperCase [OF l])
  have "commandAt [toUpperCase l] = None" by (simp add: commandAt_def u)
  then have "scanCommands [toUpperCase l] = []" by (simp add: scanCommands_Cons scanCommands_Nil)
  then show ?thesis using True by (simp add: allPairs_def renderPairs_def)
next
  case False
  have u: "isCommandLetter (toUpperCase l)" by (rule isCommandLetter_toUpperCase [OF l])
  have sp: "isSpace CHR '' ''" by (simp add: isSpace_def)
  note sh = bodyText_shape [OF t False]
  obtain p rest where ps: "ps = p # rest" using False by (cases ps) auto
  have r: "renderPairs ms ps = CHR '' '' # bodyText ms ps"
    unfolding renderPairs_body [OF t] ps by simp
  obtain h hs where body: "bodyText ms ps = h # hs" using sh(1) by (cases "bodyText ms ps") auto
  have h: "\<not> isSpace h" using sh(2) by (simp add: body)
  have all: "\<And>x. x \<in> set (bodyText ms ps) \<Longrightarrow> isCoordChar x"
    using bodyText_coord [OF t, of ps] by (simp add: list_all_iff)
  have tk: "takeWhile isCoordChar (bodyText ms ps) = bodyText ms ps"
    using all by (simp add: takeWhile_eq_all_conv)
  have dr: "dropWhile isCoordChar (bodyText ms ps) = []"
    using all by simp
  have "commandAt (toUpperCase l # CHR '' '' # h # hs) = Some (toUpperCase l, bodyText ms ps, [])"
    using tk dr sh(1) by (simp add: commandAt_def u sp h Let_def body)
  then have "scanCommands (toUpperCase l # renderPairs ms ps) = [(toUpperCase l, bodyText ms ps)]"
    unfolding r body by (simp add: scanCommands_Cons scanCommands_Nil)
  then show ?thesis by (simp add: allPairs_def pairs_bodyText(1) [OF t False])
qed

lemma hd_baked_list:
  assumes "list_all (\<lambda>cmd. isCommandLetter (fst cmd)) cs"
    and "tail = [] \<or> isCommandLetter (hd tail)"
  shows "concat (map (bakedCommand ms) cs) @ tail = [] \<or>
         isCommandLetter (hd (concat (map (bakedCommand ms) cs) @ tail))"
  using assms by (cases cs) (simp_all add: bakedCommand_def isCommandLetter_toUpperCase)

lemma allPairs_baked_list:
  assumes t: "total ms" and tail: "tail = [] \<or> isCommandLetter (hd tail)"
  shows "list_all (\<lambda>cmd. isCommandLetter (fst cmd)) cs \<Longrightarrow>
         allPairs (concat (map (bakedCommand ms) cs) @ tail)
         = concat (map (\<lambda>cmd. map (rounded ms) (pairsOf (parseCoords (snd cmd)))) cs) @ allPairs tail"
proof (induction cs)
  case Nil
  show ?case by simp
next
  case (Cons c cs)
  then have c: "isCommandLetter (fst c)" and cs: "list_all (\<lambda>cmd. isCommandLetter (fst cmd)) cs"
    by simp_all
  let ?tail = "concat (map (bakedCommand ms) cs) @ tail"
  have "?tail = [] \<or> isCommandLetter (hd ?tail)" by (rule hd_baked_list [OF cs tail])
  then have nt: "?tail = [] \<or> \<not> isCoordChar (hd ?tail)" using letter_not_coord by blast
  have "allPairs (bakedCommand ms c @ ?tail)
        = map (rounded ms) (pairsOf (parseCoords (snd c))) @ allPairs ?tail"
    by (rule allPairs_baked_tail [OF t c nt])
  then show ?case using Cons.IH [OF cs] by simp
qed

lemma last_open:
  assumes t: "total ms" and l: "isCommandLetter l"
  shows "\<not> isSpace (last (toUpperCase l # renderPairs ms ps))"
proof (cases "ps = []")
  case True
  then show ?thesis
    using letter_not_space [OF isCommandLetter_toUpperCase [OF l]] by (simp add: renderPairs_def)
next
  case False
  note sh = bodyText_shape [OF t False]
  obtain p rest where ps: "ps = p # rest" using False by (cases ps) auto
  have r: "renderPairs ms ps = CHR '' '' # bodyText ms ps"
    unfolding renderPairs_body [OF t] ps by simp
  show ?thesis unfolding r using sh(1,3) by simp
qed

lemma trim_baked:
  assumes t: "total ms" and cs: "list_all (\<lambda>cmd. isCommandLetter (fst cmd)) cs"
    and c: "isCommandLetter (fst c)"
  shows "trim (concat (map (bakedCommand ms) (cs @ [c])))
         = concat (map (bakedCommand ms) cs)
           @ toUpperCase (fst c) # renderPairs ms (pairsOf (parseCoords (snd c)))"
proof -
  let ?open = "toUpperCase (fst c) # renderPairs ms (pairsOf (parseCoords (snd c)))"
  let ?z = "concat (map (bakedCommand ms) cs) @ ?open"
  have e: "concat (map (bakedCommand ms) (cs @ [c])) = ?z @ '' ''"
    by (simp add: bakedCommand_def)
  have ne: "?z \<noteq> []" by simp
  have "?open = [] \<or> isCommandLetter (hd ?open)" by (simp add: isCommandLetter_toUpperCase [OF c])
  from hd_baked_list [OF cs this] have "isCommandLetter (hd ?z)" by simp
  then have h: "\<not> isSpace (hd ?z)" by (rule letter_not_space)
  have "last ?z = last ?open" by (simp only: last_appendR [of ?open, OF list.distinct(2)])
  then have la: "\<not> isSpace (last ?z)" using last_open [OF t c] by simp
  show ?thesis unfolding e by (rule trim_space [OF ne h la])
qed

lemma allPairs_transformPathData:
  assumes t: "total (matchesOf transform)"
  shows "allPairs (transformPathData pathData transform)
         = map (rounded (matchesOf transform)) (allPairs pathData)"
proof -
  let ?ms = "matchesOf transform"
  let ?f = "\<lambda>cmd. map (rounded ?ms) (pairsOf (parseCoords (snd cmd)))"
  have r: "map (rounded ?ms) (allPairs pathData) = concat (map ?f (scanCommands pathData))"
    by (simp add: allPairs_def map_concat comp_def case_prod_beta)
  have le: "list_all (\<lambda>cmd. isCommandLetter (fst cmd)) (scanCommands pathData)"
    by (rule scanCommands_letters)
  show ?thesis
  proof (cases "scanCommands pathData" rule: rev_cases)
    case Nil
    then show ?thesis unfolding r transformPathData_render by (simp add: trim_def allPairs_Nil)
  next
    case (snoc cs c)
    have cs: "list_all (\<lambda>cmd. isCommandLetter (fst cmd)) cs" and c: "isCommandLetter (fst c)"
      using le unfolding snoc by simp_all
    let ?open = "toUpperCase (fst c) # renderPairs ?ms (pairsOf (parseCoords (snd c)))"
    have o: "?open = [] \<or> isCommandLetter (hd ?open)" by (simp add: isCommandLetter_toUpperCase [OF c])
    have "allPairs (concat (map (bakedCommand ?ms) cs) @ ?open)
          = concat (map ?f cs) @ allPairs ?open"
      by (rule allPairs_baked_list [OF t o cs])
    also have "\<dots> = concat (map ?f (cs @ [c]))"
      by (simp add: allPairs_open [OF t c])
    finally show ?thesis
      unfolding r transformPathData_render snoc trim_baked [OF t cs c] .
  qed
qed

lemma round2_near: "\<bar>round2 v - v\<bar> \<le> 1 / 200"
proof -
  define n where "n = nat \<lfloor>\<bar>v\<bar> * 100 + 1 / 2\<rfloor>"
  have nn: "0 \<le> \<lfloor>\<bar>v\<bar> * 100 + 1 / 2\<rfloor>" by simp
  have rn: "real n = of_int \<lfloor>\<bar>v\<bar> * 100 + 1 / 2\<rfloor>" unfolding n_def using nn by simp
  have up: "real n \<le> \<bar>v\<bar> * 100 + 1 / 2" unfolding rn by (rule of_int_floor_le)
  have lo: "\<bar>v\<bar> * 100 + 1 / 2 < real n + 1" unfolding rn by linarith
  have r: "round2 v = (if v < 0 then - (real n / 100) else real n / 100)"
    unfolding round2_def n_def by simp
  show ?thesis unfolding r using up lo by (simp add: abs_if split: if_splits)
qed

lemma round2_fixed: "round2 (real_of_int k / 100) = real_of_int k / 100"
proof (cases "k < 0")
  case True
  then have a: "\<bar>real_of_int k / 100\<bar> * 100 = of_int (- k)" by simp
  have f: "\<lfloor>of_int (- k) + (1 / 2 :: real)\<rfloor> = - k" by linarith
  have "real (nat (- k)) = - real_of_int k" using True by simp
  then show ?thesis unfolding round2_def a f using True by simp
next
  case False
  then have a: "\<bar>real_of_int k / 100\<bar> * 100 = of_int k" by simp
  have f: "\<lfloor>of_int k + (1 / 2 :: real)\<rfloor> = k" by linarith
  have "real (nat k) = real_of_int k" using False by simp
  then show ?thesis unfolding round2_def a f using False by simp
qed

lemma round2_grid: "\<exists>k. round2 v = real_of_int k / 100"
proof -
  define n where "n = nat \<lfloor>\<bar>v\<bar> * 100 + 1 / 2\<rfloor>"
  have r: "round2 v = (if v < 0 then - (real n / 100) else real n / 100)"
    unfolding round2_def n_def by simp
  show ?thesis
  proof (cases "v < 0")
    case True
    then have "round2 v = real_of_int (- int n) / 100" using r by simp
    then show ?thesis by blast
  next
    case False
    then have "round2 v = real_of_int (int n) / 100" using r by simp
    then show ?thesis by blast
  qed
qed

lemma round2_round2: "round2 (round2 v) = round2 v"
proof -
  obtain k where k: "round2 v = real_of_int k / 100" using round2_grid by blast
  show ?thesis unfolding k by (rule round2_fixed)
qed

lemma round2_reflect: "round2 (1000 - round2 v) = 1000 - round2 v"
proof -
  obtain k where k: "round2 v = real_of_int k / 100" using round2_grid by blast
  have "1000 - real_of_int k / 100 = real_of_int (100000 - k) / 100" by simp
  then show ?thesis unfolding k by (simp only: round2_fixed)
qed

lemma matchesOf_mirror:
  "matchesOf mirrorString
   = \<lparr>rotateM = None, scaleM = Some (''-1'', ''1''), translateM = Some (''-1000'', ''0'')\<rparr>"
  unfolding mirrorString_def by code_simp

lemma parseFloat_mirror:
  "parseFloat ''-1'' = Some (- 1)" "parseFloat ''1'' = Some 1"
  "parseFloat ''-1000'' = Some (- 1000)" "parseFloat ''0'' = Some 0"
  by (simp_all add: parseFloat_def parseUnsigned_def string_eval)

lemma applyTransforms_mirror:
  "applyTransforms (matchesOf mirrorString) (Some x, Some y) = (Some (1000 - x), Some y)"
  unfolding matchesOf_mirror
  by (simp add: applyTransforms_def lift2_def parseFloat_mirror)

lemma total_mirror: "total (matchesOf mirrorString)"
  by (simp add: total_def applyTransforms_mirror)

lemma rounded_mirror:
  "rounded (matchesOf mirrorString) p = (round2 (1000 - fst p), round2 (snd p))"
  by (simp add: rounded_def transformed_def applyTransforms_mirror)

lemma rounded_mirror_twice:
  "rounded (matchesOf mirrorString) (rounded (matchesOf mirrorString) p)
   = (1000 - round2 (1000 - fst p), round2 (snd p))"
  by (simp add: rounded_mirror round2_reflect round2_round2)

lemma coordinatesWithin_map:
  assumes "\<And>p. \<bar>fst (f p) - fst p\<bar> \<le> tolerance \<and> \<bar>snd (f p) - snd p\<bar> \<le> tolerance"
  shows "coordinatesWithin tolerance (map f ps) ps"
  unfolding coordinatesWithin_def list_all2_map1
  by (rule list_all2_all_nthI) (simp_all add: assms)

lemma mirror_twice_pairs:
  "coordinatesWithin (1 / 100)
     (allPairs (transformPathData (transformPathData pathData mirrorString) mirrorString))
     (allPairs pathData)"
proof -
  let ?r = "rounded (matchesOf mirrorString)"
  have e: "allPairs (transformPathData (transformPathData pathData mirrorString) mirrorString)
           = map (\<lambda>p. ?r (?r p)) (allPairs pathData)"
    by (simp add: allPairs_transformPathData [OF total_mirror] comp_def)
  have n: "\<bar>fst (?r (?r p)) - fst p\<bar> \<le> 1 / 100 \<and> \<bar>snd (?r (?r p)) - snd p\<bar> \<le> 1 / 100" for p
  proof -
    have a: "\<bar>round2 (1000 - fst p) - (1000 - fst p)\<bar> \<le> 1 / 200" by (rule round2_near)
    have b: "\<bar>round2 (snd p) - snd p\<bar> \<le> 1 / 200" by (rule round2_near)
    have "\<bar>1000 - round2 (1000 - fst p) - fst p\<bar> \<le> 1 / 100" using a by linarith
    moreover have "\<bar>round2 (snd p) - snd p\<bar> \<le> 1 / 100" using b by linarith
    ultimately show ?thesis unfolding rounded_mirror_twice by simp
  qed
  show ?thesis unfolding e by (rule coordinatesWithin_map) (rule n)
qed

lemma transformPathData_Nil: "transformPathData [] transform = []"
  by (simp add: transformPathData_render scanCommands_Nil trim_def)

lemma getAttribute_mirrorPath_d: "getAttribute (mirrorPath fresh e) ''d'' = getAttribute e ''d''"
  by (simp add: mirrorPath_def Let_def getAttribute_setAttribute_other getAttribute_cloneNode)

lemma bakeTransform_d:
  assumes "getAttribute path ''transform'' = Some t" "t \<noteq> []" "getAttribute path ''d'' = Some pathData"
  shows "getAttribute (bakeTransform fresh path) ''d'' = Some (transformPathData pathData t)"
  using assms
  by (simp add: bakeTransform_def Let_def getAttribute_removeAttribute getAttribute_cloneNode
        getAttribute_setAttribute transformPathData_Nil)

lemma bake_mirror_d:
  assumes "getAttribute e ''d'' = Some pathData"
  shows "getAttribute (bakeTransform fresh' (mirrorPath fresh e)) ''d''
         = Some (transformPathData pathData mirrorString)"
  by (rule bakeTransform_d [OF mirrorPath_transform mirrorString_nonempty])
     (simp add: getAttribute_mirrorPath_d assms)

text \<open>
  Claim C7, for two rounds of mirroring and baking. For every path element with path
  data, mirroring it, baking the mirror, mirroring the baked path and baking again gives
  a path with no transform whose coordinate pairs are, one by one, within \<open>0.01\<close> of
  the coordinate pairs of the original path data. The coordinate pairs are those that the
  baker reads: the complete pairs of the commands M, L, Q, C.
\<close>

theorem mirror_bake_mirror_bake:
  assumes "getAttribute e ''d'' = Some pathData"
  shows "getAttribute (bakeTransform f3 (mirrorPath f2 (bakeTransform f1 (mirrorPath f0 e)))) ''d''
           = Some (transformPathData (transformPathData pathData mirrorString) mirrorString) \<and>
         getAttribute (bakeTransform f3 (mirrorPath f2 (bakeTransform f1 (mirrorPath f0 e)))) ''transform''
           = None \<and>
         coordinatesWithin (1 / 100)
           (allPairs (transformPathData (transformPathData pathData mirrorString) mirrorString))
           (allPairs pathData)"
  using bake_mirror_d [OF bake_mirror_d [OF assms]] bakeTransform_transform_None mirror_twice_pairs
  by simp

theorem mirror_bake_mirror_bake_witness:
  "getAttribute (pathElement stroke0) ''d'' = Some ''M 550 450 L 600 480'' \<and>
   coordinatesWithin (1 / 100)
     (allPairs (the (getAttribute
        (bakeTransform 4 (mirrorPath 3 (bakeTransform 2 (mirrorPath 1 (pathElement stroke0))))) ''d'')))
     (allPairs ''M 550 450 L 600 480'')"
proof -
  have d: "getAttribute (pathElement stroke0) ''d'' = Some ''M 550 450 L 600 480''"
    by (simp add: stroke0_def getAttribute_def)
  from mirror_bake_mirror_bake [OF d, of 4 3 2 1] d show ?thesis by simp
qed


end
